theory Spec2Isabelle
  imports Main "HOL-Library.Sublist"
begin

section \<open>Text lines and the literals of the scripts\<close>

text \<open>
  The four scripts read \<^verbatim>\<open>electron/main.ts\<close> with \<^verbatim>\<open>readlines()\<close>, rewrite the list of
  lines in one loop and hand the new list to \<^verbatim>\<open>writelines()\<close>.  A document is the list
  returned by \<^verbatim>\<open>readlines()\<close>: every element is one line with its terminator.  A Python
  \<^verbatim>\<open>str\<close> is modelled as a \<^typ>\<open>string\<close>, each \<^typ>\<open>char\<close> standing for one code point
  below 256.
\<close>

datatype error = IndexError

text \<open>Python's \<^verbatim>\<open>pat in s\<close> on strings: \<open>pat\<close> occurs in \<open>s\<close> as a contiguous substring.\<close>

fun contains :: "string \<Rightarrow> string \<Rightarrow> bool" where
  "contains pat [] = (pat = [])"
| "contains pat (c # cs) = (prefix pat (c # cs) \<or> contains pat cs)"

abbreviation import_line :: string where
  "import_line \<equiv>
     ''import { registerGitHandlers, cleanupGitWatchers } from './services/git-service.js'\<newline>''"

abbreviation blank_line :: string where
  "blank_line \<equiv> ''\<newline>''"

abbreviation register_comment :: string where
  "register_comment \<equiv> ''  // Register all git-related IPC handlers\<newline>''"

abbreviation register_call :: string where
  "register_call \<equiv> ''  registerGitHandlers(mainWindow, sshManager, execInContextAsync)\<newline>''"

abbreviation cleanup_comment :: string where
  "cleanup_comment \<equiv> ''    // Clean up all git watchers\<newline>''"

abbreviation cleanup_call :: string where
  "cleanup_call \<equiv> ''    cleanupGitWatchers()\<newline>''"

text \<open>The three patterns that end in an apostrophe.\<close>

abbreviation git_get_info :: string where
  "git_get_info \<equiv> ''ipcMain.handle('git:get-info'' @ [CHR 0x27]"

abbreviation git_pull :: string where
  "git_pull \<equiv> '''git:pull'' @ [CHR 0x27]"

abbreviation status_change :: string where
  "status_change \<equiv> ''sshManager.on('status-change'' @ [CHR 0x27]"

text \<open>Python's slice \<^verbatim>\<open>lines[a:b]\<close> for \<open>0 \<le> a\<close> and \<open>0 \<le> b\<close>; it never raises.\<close>

definition slice :: "'a list \<Rightarrow> nat \<Rightarrow> nat \<Rightarrow> 'a list" where
  "slice xs a b = take (b - a) (drop a xs)"


section \<open>extract\_git.py\<close>

text \<open>
  Lines 35--39 and 80--84: the forward scan
  \<^verbatim>\<open>while i < len(lines): i += 1; if pat in lines[i]: i += 1; break\<close>.
  The index is incremented before the line is read, so reading \<^verbatim>\<open>lines[len(lines)]\<close> raises
  \<^verbatim>\<open>IndexError\<close>.  The result is the index at which the main loop continues.
\<close>

function skip_past :: "string \<Rightarrow> string list \<Rightarrow> nat \<Rightarrow> error + nat" where
  "skip_past pat lines i =
     (if i < length lines then
        (let i' = i + 1 in
           if length lines \<le> i' then Inl IndexError
           else if contains pat (lines ! i') then Inr (i' + 1)
           else skip_past pat lines i')
      else Inr i)"
  by pat_completeness auto
termination
  by (relation "measure (\<lambda>(pat, lines, i). length lines - i)") auto

declare skip_past.simps [simp del]

text \<open>Lines 47--58: the scan over the git handlers, which checks the bound itself.\<close>

function skip_handlers :: "string list \<Rightarrow> nat \<Rightarrow> nat" where
  "skip_handlers lines i =
     (if i < length lines then
        (let i' = i + 1 in
           if length lines \<le> i' then i'
           else if contains ''ipcMain.handle('' (lines ! i') \<and> \<not> contains git_pull (lines ! i')
             then i'
           else if contains ''// File system IPC handlers'' (lines ! i') then i'
           else skip_handlers lines i')
      else i)"
  by pat_completeness auto
termination
  by (relation "measure (\<lambda>(lines, i). length lines - i)") auto

declare skip_handlers.simps [simp del]

text \<open>
  Lines 65--72: the inner \<^verbatim>\<open>for j in range(max(0, i-20), i)\<close>.  Its \<^verbatim>\<open>continue\<close> continues
  the \<^verbatim>\<open>for\<close> loop, so every matching \<open>j\<close> appends the four lines and increments \<open>i\<close>.
\<close>

fun register_loop ::
  "string list \<Rightarrow> string \<Rightarrow> nat list \<Rightarrow> nat \<times> string list \<Rightarrow> nat \<times> string list" where
  "register_loop lines line [] (i, new_lines) = (i, new_lines)"
| "register_loop lines line (j # js) (i, new_lines) =
     (if contains status_change (lines ! j)
      then register_loop lines line js
             (i + 1, new_lines @ [line, blank_line, register_comment, register_call])
      else register_loop lines line js (i, new_lines))"

text \<open>Lines 63--72: step 4, which falls through to step 5 whatever it did.\<close>

definition register_step :: "string list \<Rightarrow> nat \<Rightarrow> string list \<Rightarrow> nat \<times> string list" where
  "register_step lines i new_lines =
     (let line = lines ! i in
      if 0 < i \<and> contains ''  })'' line
           \<and> contains ''sshManager.on'' (concat (slice lines (i - 20) i))
      then register_loop lines line [i - 20 ..< i] (i, new_lines)
      else (i, new_lines))"

text \<open>Lines 22--89: one iteration of the main \<^verbatim>\<open>while\<close> loop, entered with \<open>i < len(lines)\<close>.\<close>

definition extract_step :: "string list \<Rightarrow> nat \<Rightarrow> string list \<Rightarrow> error + nat \<times> string list" where
  "extract_step lines i new_lines =
     (let line = lines ! i in
      if i = 16 \<and> contains ''generateFileId'' line then
        Inr (i + 1, new_lines @ [line, import_line])
      else if contains ''interface GitWatcherSet'' line then
        (case skip_past ''const GIT_DEBOUNCE_MS'' lines i of
           Inl e \<Rightarrow> Inl e
         | Inr i' \<Rightarrow> Inr (i', new_lines))
      else if contains git_get_info line then
        Inr (skip_handlers lines i, new_lines)
      else
        (case register_step lines i new_lines of
           (i4, new_lines4) \<Rightarrow>
             if contains ''// Clean up all git watchers'' line then
               (case skip_past ''gitWatchers.clear()'' lines i4 of
                  Inl e \<Rightarrow> Inl e
                | Inr i' \<Rightarrow> Inr (i', new_lines4 @ [cleanup_comment, cleanup_call]))
             else Inr (i4 + 1, new_lines4 @ [line])))"

lemma skip_past_advances:
  "skip_past pat lines i = Inr i' \<Longrightarrow> i < length lines \<Longrightarrow> i + 2 \<le> i'"
proof (induction pat lines i rule: skip_past.induct)
  case (1 pat lines i)
  from "1.prems" show ?case
    apply (subst (asm) skip_past.simps)
    apply (simp add: Let_def split: if_splits)
    using "1.IH" apply fastforce
    done
qed

lemma skip_past_end: "length lines \<le> i \<Longrightarrow> skip_past pat lines i = Inr i"
  by (subst skip_past.simps) simp

lemma skip_past_ge: "skip_past pat lines i = Inr i' \<Longrightarrow> i \<le> i'"
proof (cases "i < length lines")
  case True
  assume "skip_past pat lines i = Inr i'"
  with True have "i + 2 \<le> i'" by (rule skip_past_advances[rotated])
  then show ?thesis by simp
next
  case False
  assume "skip_past pat lines i = Inr i'"
  with False show ?thesis by (simp add: skip_past_end)
qed

lemma skip_handlers_advances: "i < length lines \<Longrightarrow> i < skip_handlers lines i"
proof (induction lines i rule: skip_handlers.induct)
  case (1 lines i)
  let ?stop = "length lines \<le> i + 1
     \<or> (contains ''ipcMain.handle('' (lines ! (i + 1)) \<and> \<not> contains git_pull (lines ! (i + 1)))
     \<or> contains ''// File system IPC handlers'' (lines ! (i + 1))"
  show ?case
  proof (cases ?stop)
    case True
    with "1.prems" have "skip_handlers lines i = i + 1"
      by (subst skip_handlers.simps) (auto simp: Let_def)
    then show ?thesis by simp
  next
    case False
    with "1.prems" have eq: "skip_handlers lines i = skip_handlers lines (i + 1)"
      by (subst skip_handlers.simps) (auto simp: Let_def)
    from False "1.prems" have "i + 1 < skip_handlers lines (i + 1)"
      by (intro "1.IH") auto
    with eq show ?thesis by simp
  qed
qed

lemma register_loop_mono:
  "register_loop lines line js (i, acc) = (i', acc') \<Longrightarrow> i \<le> i' \<and> prefix acc acc'"
proof (induction js arbitrary: i acc)
  case Nil
  then show ?case by simp
next
  case (Cons j js)
  show ?case
  proof (cases "contains status_change (lines ! j)")
    case True
    with Cons.prems have
      "register_loop lines line js
         (i + 1, acc @ [line, blank_line, register_comment, register_call]) = (i', acc')"
      by simp
    from Cons.IH[OF this] show ?thesis
      by (auto dest: append_prefixD)
  next
    case False
    with Cons.prems have "register_loop lines line js (i, acc) = (i', acc')"
      by simp
    from Cons.IH[OF this] show ?thesis .
  qed
qed

lemma register_step_mono:
  "register_step lines i acc = (i4, acc4) \<Longrightarrow> i \<le> i4 \<and> prefix acc acc4"
  unfolding register_step_def Let_def
  by (auto split: if_splits dest: register_loop_mono)

text \<open>The four branches of one iteration, as equations.\<close>

lemma extract_step_import:
  "i = 16 \<and> contains ''generateFileId'' (lines ! i) \<Longrightarrow>
   extract_step lines i acc = Inr (i + 1, acc @ [lines ! i, import_line])"
  by (auto simp: extract_step_def Let_def)

lemma extract_step_interface:
  "\<not> (i = 16 \<and> contains ''generateFileId'' (lines ! i)) \<Longrightarrow>
   contains ''interface GitWatcherSet'' (lines ! i) \<Longrightarrow>
   extract_step lines i acc =
     (case skip_past ''const GIT_DEBOUNCE_MS'' lines i of
        Inl e \<Rightarrow> Inl e
      | Inr i' \<Rightarrow> Inr (i', acc))"
  by (auto simp: extract_step_def Let_def)

lemma extract_step_handlers:
  "\<not> (i = 16 \<and> contains ''generateFileId'' (lines ! i)) \<Longrightarrow>
   \<not> contains ''interface GitWatcherSet'' (lines ! i) \<Longrightarrow>
   contains git_get_info (lines ! i) \<Longrightarrow>
   extract_step lines i acc = Inr (skip_handlers lines i, acc)"
  by (auto simp: extract_step_def Let_def)

lemma extract_step_cleanup:
  "\<not> (i = 16 \<and> contains ''generateFileId'' (lines ! i)) \<Longrightarrow>
   \<not> contains ''interface GitWatcherSet'' (lines ! i) \<Longrightarrow>
   \<not> contains git_get_info (lines ! i) \<Longrightarrow>
   contains ''// Clean up all git watchers'' (lines ! i) \<Longrightarrow>
   register_step lines i acc = (i4, acc4) \<Longrightarrow>
   extract_step lines i acc =
     (case skip_past ''gitWatchers.clear()'' lines i4 of
        Inl e \<Rightarrow> Inl e
      | Inr i' \<Rightarrow> Inr (i', acc4 @ [cleanup_comment, cleanup_call]))"
  by (auto simp: extract_step_def Let_def)

lemma extract_step_default:
  "\<not> (i = 16 \<and> contains ''generateFileId'' (lines ! i)) \<Longrightarrow>
   \<not> contains ''interface GitWatcherSet'' (lines ! i) \<Longrightarrow>
   \<not> contains git_get_info (lines ! i) \<Longrightarrow>
   \<not> contains ''// Clean up all git watchers'' (lines ! i) \<Longrightarrow>
   register_step lines i acc = (i4, acc4) \<Longrightarrow>
   extract_step lines i acc = Inr (i4 + 1, acc4 @ [lines ! i])"
  by (auto simp: extract_step_def Let_def)

lemma extract_step_mono:
  assumes "extract_step lines i acc = Inr (i', acc')" and "i < length lines"
  shows "i < i' \<and> prefix acc acc'"
proof -
  let ?line = "lines ! i"
  consider (import) "i = 16 \<and> contains ''generateFileId'' ?line"
    | (interface) "\<not> (i = 16 \<and> contains ''generateFileId'' ?line)"
        "contains ''interface GitWatcherSet'' ?line"
    | (handlers) "\<not> (i = 16 \<and> contains ''generateFileId'' ?line)"
        "\<not> contains ''interface GitWatcherSet'' ?line" "contains git_get_info ?line"
    | (rest) "\<not> (i = 16 \<and> contains ''generateFileId'' ?line)"
        "\<not> contains ''interface GitWatcherSet'' ?line" "\<not> contains git_get_info ?line"
    by blast
  then show ?thesis
  proof cases
    case import
    from assms(1) show ?thesis
      unfolding extract_step_import[OF import] by auto
  next
    case interface
    from assms(1) have "skip_past ''const GIT_DEBOUNCE_MS'' lines i = Inr i'" and "acc' = acc"
      unfolding extract_step_interface[OF interface] by (auto split: sum.splits)
    with assms(2) show ?thesis
      by (auto dest: skip_past_advances)
  next
    case handlers
    from assms(1) have "i' = skip_handlers lines i" and "acc' = acc"
      unfolding extract_step_handlers[OF handlers] by auto
    with assms(2) show ?thesis
      by (simp add: skip_handlers_advances)
  next
    case rest
    obtain i4 acc4 where r: "register_step lines i acc = (i4, acc4)"
      by (cases "register_step lines i acc")
    then have m: "i \<le> i4" "prefix acc acc4"
      by (auto dest: register_step_mono)
    show ?thesis
    proof (cases "contains ''// Clean up all git watchers'' ?line")
      case True
      from assms(1) have s: "skip_past ''gitWatchers.clear()'' lines i4 = Inr i'"
        and a: "acc' = acc4 @ [cleanup_comment, cleanup_call]"
        unfolding extract_step_cleanup[OF rest True r] by (auto split: sum.splits)
      from s have "i4 \<le> i'" by (rule skip_past_ge)
      moreover have "i4 \<noteq> i'" if "i4 < length lines"
        using skip_past_advances[OF s that] by simp
      ultimately have "i < i'"
        using m(1) assms(2) by (cases "i4 < length lines") auto
      moreover from a m(2) have "prefix acc acc'"
        by (auto intro: prefix_order.trans)
      ultimately show ?thesis by simp
    next
      case False
      from assms(1) have "i' = i4 + 1" and "acc' = acc4 @ [?line]"
        unfolding extract_step_default[OF rest False r] by auto
      with m show ?thesis
        by (auto intro: prefix_order.trans)
    qed
  qed
qed

text \<open>Lines 21--89: the main loop.  \<open>Inr new_lines\<close> is the list that lines 92--93 write.\<close>

function extract_loop :: "string list \<Rightarrow> nat \<Rightarrow> string list \<Rightarrow> error + string list" where
  "extract_loop lines i new_lines =
     (if i < length lines then
        (case extract_step lines i new_lines of
           Inl e \<Rightarrow> Inl e
         | Inr (i', new_lines') \<Rightarrow> extract_loop lines i' new_lines')
      else Inr new_lines)"
  by pat_completeness auto
termination
  by (relation "measure (\<lambda>(lines, i, new_lines). length lines - i)")
     (auto dest: extract_step_mono)

declare extract_loop.simps [simp del]

text \<open>
  Lines 17--89 of \<^verbatim>\<open>main\<close>, from the list read at line 15 to the list written at line 93.
  \<open>Inl e\<close>: the exception \<open>e\<close> leaves \<^verbatim>\<open>main\<close> before line 92 opens the file for writing.
\<close>

definition extract_git :: "string list \<Rightarrow> error + string list" where
  "extract_git lines = extract_loop lines 0 []"


section \<open>modify\_main.py\<close>

text \<open>
  Python's \<^verbatim>\<open>str.strip()\<close> removes the characters for which \<^verbatim>\<open>str.isspace()\<close> holds from both
  ends; \<open>is_space\<close> lists the code points below 256 among them.
\<close>

definition is_space :: "char \<Rightarrow> bool" where
  "is_space c = (of_char c \<in> {9, 10, 11, 12, 13, 28, 29, 30, 31, 32, 133, 160 :: nat})"

definition strip :: "string \<Rightarrow> string" where
  "strip s = rev (dropWhile is_space (rev (dropWhile is_space s)))"

text \<open>
  Lines 14--59: one iteration of the \<^verbatim>\<open>while\<close> loop.  Every step but the default compares
  \<open>line_num\<close> with a constant.  Step 3 (lines 31--40) has its second test nested; when either
  test fails control reaches step 4, as in the chain below.  No expression of the body can
  raise: \<^verbatim>\<open>lines[i-1]\<close> is read at \<open>i = 16\<close> only.
\<close>

definition modify_step :: "string list \<Rightarrow> nat \<Rightarrow> string list \<Rightarrow> nat \<times> string list" where
  "modify_step lines i new_lines =
     (let line = lines ! i; line_num = i + 1 in
      if line_num = 17 \<and> prefix ''import { generateFileId'' (strip (lines ! (i - 1))) then
        (i + 1, new_lines @ [import_line, line])
      else if line_num = 434 \<and> contains ''interface GitWatcherSet'' line then
        (i + 10, new_lines)
      else if line_num = 492 \<and> contains ''  })'' line \<and> 0 < i
                \<and> contains status_change (concat (slice lines (i - 10) i)) then
        (i + 1, new_lines @ [line, blank_line, register_comment, register_call])
      else if line_num = 978 \<and> contains git_get_info line then
        (i + 701, new_lines)
      else if line_num = 507 \<and> contains ''// Clean up all git watchers'' line then
        (i + 13, new_lines @ [cleanup_comment, cleanup_call])
      else
        (i + 1, new_lines @ [line]))"

lemma modify_step_mono:
  "modify_step lines i acc = (i', acc') \<Longrightarrow> i < i' \<and> prefix acc acc'"
  by (auto simp: modify_step_def Let_def split: if_splits)

function modify_loop :: "string list \<Rightarrow> nat \<Rightarrow> string list \<Rightarrow> string list" where
  "modify_loop lines i new_lines =
     (if i < length lines then
        (case modify_step lines i new_lines of
           (i', new_lines') \<Rightarrow> modify_loop lines i' new_lines')
      else new_lines)"
  by pat_completeness auto
termination
proof (relation "measure (\<lambda>(lines, i, new_lines). length lines - i)", goal_cases)
  case 1
  show ?case by simp
next
  case (2 lines i new_lines i' new_lines')
  from 2(2) have "i < i'"
    using modify_step_mono[of lines i new_lines i' new_lines'] by simp
  with 2(1) show ?case by simp
qed

declare modify_loop.simps [simp del]

text \<open>Lines 10--59 of \<^verbatim>\<open>main\<close>: the list that lines 62--63 write.\<close>

definition modify_main :: "string list \<Rightarrow> string list" where
  "modify_main lines = modify_loop lines 0 []"


section \<open>modify\_main\_v2.py\<close>

text \<open>
  Lines 15--71: the body of \<^verbatim>\<open>for i, line in enumerate(lines)\<close>, on the pair of
  \<^verbatim>\<open>skip_until_line\<close> and \<^verbatim>\<open>new_lines\<close>.  Once the test of lines 18--22 lets a line through,
  \<^verbatim>\<open>skip_until_line\<close> is \<^verbatim>\<open>None\<close>.  Lines 64--67 take the first \<open>j\<close> after \<open>i\<close> whose line
  contains \<^verbatim>\<open>gitWatchers.clear()\<close> and \<^verbatim>\<open>break\<close>.
\<close>

definition v2_body ::
  "string list \<Rightarrow> nat option \<times> string list \<Rightarrow> nat \<Rightarrow> nat option \<times> string list" where
  "v2_body lines st i =
     (case st of (skip_until_line, new_lines) \<Rightarrow>
      let line = lines ! i; line_num = i + 1 in
      if (case skip_until_line of None \<Rightarrow> False | Some s \<Rightarrow> \<not> s < line_num) then
        (skip_until_line, new_lines)
      else if line_num = 16 \<and> contains ''generateFileId'' line then
        (None, new_lines @ [line, import_line])
      else if line_num = 439 \<and> contains ''interface GitWatcherSet'' line then
        (Some 448, new_lines)
      else if line_num = 497 \<and> contains ''  })'' line
                \<and> contains status_change (concat (slice lines (i - 10) i)) then
        (None, new_lines @ [line, blank_line, register_comment, register_call])
      else if line_num = 947 \<and> contains git_get_info line then
        (Some 1689, new_lines)
      else if contains ''// Clean up all git watchers'' line \<and> 500 < line_num then
        (case find (\<lambda>j. contains ''gitWatchers.clear()'' (lines ! j)) [i + 1 ..< length lines] of
           None \<Rightarrow> (None, new_lines @ [cleanup_comment, cleanup_call])
         | Some j \<Rightarrow> (Some (j + 1), new_lines @ [cleanup_comment, cleanup_call]))
      else
        (None, new_lines @ [line]))"

text \<open>Lines 11--71 of \<^verbatim>\<open>main\<close>: the list that lines 74--75 write.\<close>

definition modify_main_v2 :: "string list \<Rightarrow> string list" where
  "modify_main_v2 lines = snd (foldl (v2_body lines) (None, []) [0 ..< length lines])"


section \<open>modify\_main\_final.py\<close>

text \<open>
  Lines 17--71: one iteration of the \<^verbatim>\<open>while\<close> loop.  Step 5 (lines 57--67) has the same
  forward scan as \<^verbatim>\<open>extract_git.py\<close>, with the same unchecked read of \<^verbatim>\<open>lines[i]\<close>.
\<close>

definition final_step :: "string list \<Rightarrow> nat \<Rightarrow> string list \<Rightarrow> error + nat \<times> string list" where
  "final_step lines i new_lines =
     (let line = lines ! i; line_num = i + 1 in
      if line_num = 16 \<and> contains ''generateFileId'' line then
        Inr (i + 1, new_lines @ [line, import_line])
      else if line_num = 434 \<and> contains ''interface GitWatcherSet'' line then
        Inr (i + 10, new_lines)
      else if contains ''  })'' line \<and> 540 < line_num \<and> line_num < 550
                \<and> contains status_change (concat (slice lines (i - 10) i)) then
        Inr (i + 1, new_lines @ [line, blank_line, register_comment, register_call])
      else if line_num = 1277 \<and> contains git_get_info line then
        Inr (i + 742, new_lines)
      else if contains ''// Clean up all git watchers'' line \<and> 500 < line_num \<and> line_num < 600 then
        (case skip_past ''gitWatchers.clear()'' lines i of
           Inl e \<Rightarrow> Inl e
         | Inr i' \<Rightarrow> Inr (i', new_lines @ [cleanup_comment, cleanup_call]))
      else
        Inr (i + 1, new_lines @ [line]))"

lemma final_step_advances:
  "final_step lines i acc = Inr (i', acc') \<Longrightarrow> i < length lines \<Longrightarrow> i < i'"
  by (auto simp: final_step_def Let_def split: if_splits sum.splits dest!: skip_past_advances)

function final_loop :: "string list \<Rightarrow> nat \<Rightarrow> string list \<Rightarrow> error + string list" where
  "final_loop lines i new_lines =
     (if i < length lines then
        (case final_step lines i new_lines of
           Inl e \<Rightarrow> Inl e
         | Inr (i', new_lines') \<Rightarrow> final_loop lines i' new_lines')
      else Inr new_lines)"
  by pat_completeness auto
termination
  by (relation "measure (\<lambda>(lines, i, new_lines). length lines - i)")
     (auto dest: final_step_advances)

declare final_loop.simps [simp del]

text \<open>Lines 13--71 of \<^verbatim>\<open>main\<close>: \<open>Inr new_lines\<close> is the list that lines 74--75 write.\<close>

definition modify_main_final :: "string list \<Rightarrow> error + string list" where
  "modify_main_final lines = final_loop lines 0 []"


section \<open>Writing the file back\<close>

text \<open>
  Every script ends with
  \<^verbatim>\<open>with open('electron/main.ts', 'w', encoding='utf-8') as f: f.writelines(new_lines)\<close>.
  Opening a file with mode \<^verbatim>\<open>'w'\<close> truncates it; \<^verbatim>\<open>writelines\<close> appends the strings of the
  list one after the other.  A file system maps a path to the text stored under it.
\<close>

datatype io_event = Open_write string | Writelines string "string list"

type_synonym fs = "string \<rightharpoonup> string"

abbreviation main_ts :: string where
  "main_ts \<equiv> ''electron/main.ts''"

fun apply_event :: "io_event \<Rightarrow> fs \<Rightarrow> fs" where
  "apply_event (Open_write p) files = files(p \<mapsto> [])"
| "apply_event (Writelines p ls) files =
     files(p \<mapsto> (case files p of None \<Rightarrow> [] | Some text \<Rightarrow> text) @ concat ls)"

fun event_path :: "io_event \<Rightarrow> string" where
  "event_path (Open_write p) = p"
| "event_path (Writelines p ls) = p"

definition write_back :: "string list \<Rightarrow> io_event list" where
  "write_back new_lines = [Open_write main_ts, Writelines main_ts new_lines]"

text \<open>
  The writes of \<^verbatim>\<open>extract_git.py\<close>'s \<^verbatim>\<open>main\<close> when \<^verbatim>\<open>readlines()\<close> returned \<open>lines\<close>: none when
  the loop raises, since the exception leaves \<^verbatim>\<open>main\<close> before line 92.
\<close>

definition extract_git_writes :: "string list \<Rightarrow> io_event list" where
  "extract_git_writes lines =
     (case extract_git lines of Inl e \<Rightarrow> [] | Inr new_lines \<Rightarrow> write_back new_lines)"

text \<open>The file system when the run is interrupted after the first \<open>k\<close> of its write events.\<close>

definition interrupted_after :: "nat \<Rightarrow> io_event list \<Rightarrow> fs \<Rightarrow> fs" where
  "interrupted_after k events files = fold apply_event (take k events) files"


section \<open>Lines that a step takes\<close>

text \<open>
  The tests by which an iteration leaves the default path, read off the scripts.  In
  \<^verbatim>\<open>modify_main.py\<close> these are the tests of lines 18, 25, 31 with 34, 43 and 50; in
  \<^verbatim>\<open>extract_git.py\<close> the tests of lines 25, 33, 44, 63 with 66 for some \<open>j\<close> of the window,
  and 75; in \<^verbatim>\<open>modify_main_v2.py\<close> the tests of lines 25, 34, 41 with 44, 54 and 60.
\<close>

definition modify_takes :: "string list \<Rightarrow> nat \<Rightarrow> bool" where
  "modify_takes lines i \<longleftrightarrow>
     (let line = lines ! i; line_num = i + 1 in
        (line_num = 17 \<and> prefix ''import { generateFileId'' (strip (lines ! (i - 1))))
      \<or> (line_num = 434 \<and> contains ''interface GitWatcherSet'' line)
      \<or> (line_num = 492 \<and> contains ''  })'' line \<and> 0 < i
            \<and> contains status_change (concat (slice lines (i - 10) i)))
      \<or> (line_num = 978 \<and> contains git_get_info line)
      \<or> (line_num = 507 \<and> contains ''// Clean up all git watchers'' line))"

definition extract_git_takes :: "string list \<Rightarrow> nat \<Rightarrow> bool" where
  "extract_git_takes lines i \<longleftrightarrow>
     (let line = lines ! i in
        (i = 16 \<and> contains ''generateFileId'' line)
      \<or> contains ''interface GitWatcherSet'' line
      \<or> contains git_get_info line
      \<or> (0 < i \<and> contains ''  })'' line
            \<and> contains ''sshManager.on'' (concat (slice lines (i - 20) i))
            \<and> (\<exists>j \<in> set [i - 20 ..< i]. contains status_change (lines ! j)))
      \<or> contains ''// Clean up all git watchers'' line)"

definition v2_takes :: "string list \<Rightarrow> nat \<Rightarrow> bool" where
  "v2_takes lines i \<longleftrightarrow>
     (let line = lines ! i; line_num = i + 1 in
        (line_num = 16 \<and> contains ''generateFileId'' line)
      \<or> (line_num = 439 \<and> contains ''interface GitWatcherSet'' line)
      \<or> (line_num = 497 \<and> contains ''  })'' line
            \<and> contains status_change (concat (slice lines (i - 10) i)))
      \<or> (line_num = 947 \<and> contains git_get_info line)
      \<or> (contains ''// Clean up all git watchers'' line \<and> 500 < line_num))"

text \<open>
  A stronger condition on one line of \<^verbatim>\<open>extract_git.py\<close>, which reads the index and the line
  only: the line contains none of the patterns that start a step.
\<close>

definition extract_git_idle :: "nat \<Rightarrow> string \<Rightarrow> bool" where
  "extract_git_idle i line \<longleftrightarrow>
     \<not> (i = 16 \<and> contains ''generateFileId'' line)
   \<and> \<not> contains ''interface GitWatcherSet'' line
   \<and> \<not> contains git_get_info line
   \<and> \<not> contains ''  })'' line
   \<and> \<not> contains ''// Clean up all git watchers'' line"

text \<open>A line that contains none of the patterns by which \<^verbatim>\<open>extract_git.py\<close> finds a step or a listener.\<close>

definition unrelated :: "string \<Rightarrow> bool" where
  "unrelated line \<longleftrightarrow>
     \<not> contains ''interface GitWatcherSet'' line
   \<and> \<not> contains git_get_info line
   \<and> \<not> contains ''  })'' line
   \<and> \<not> contains ''// Clean up all git watchers'' line
   \<and> \<not> contains status_change line"


section \<open>Facts about the scans\<close>

lemmas modify_eval = modify_main_def modify_loop.simps modify_step_def slice_def Let_def

lemmas extract_git_eval =
  extract_git_def extract_loop.simps extract_step_def register_step_def slice_def
  skip_past.simps skip_handlers.simps Let_def

lemma contains_iff_sublist: "contains pat s \<longleftrightarrow> sublist pat s"
  by (induction s) (auto simp: sublist_Cons_right)

text \<open>The forward scan stops just past the first line after \<open>i\<close> that contains the pattern.\<close>

lemma skip_past_first:
  assumes "i < j" and "j < length lines" and "contains pat (lines ! j)"
    and "\<forall>m. i < m \<and> m < j \<longrightarrow> \<not> contains pat (lines ! m)"
  shows "skip_past pat lines i = Inr (j + 1)"
  using assms
proof (induction pat lines i rule: skip_past.induct)
  case (1 pat lines i)
  show ?case
  proof (cases "i + 1 = j")
    case True
    with "1.prems" show ?thesis
      by (subst skip_past.simps) (auto simp: Let_def)
  next
    case False
    with "1.prems" have lt: "i + 1 < j" and no: "\<not> contains pat (lines ! (i + 1))"
      by auto
    with "1.prems" have "skip_past pat lines i = skip_past pat lines (i + 1)"
      by (subst skip_past.simps) (auto simp: Let_def)
    also from lt no "1.prems" have "\<dots> = Inr (j + 1)"
      by (intro "1.IH") auto
    finally show ?thesis .
  qed
qed

text \<open>With no such line it reads \<^verbatim>\<open>lines[len(lines)]\<close>.\<close>

lemma skip_past_no_match:
  assumes "i < length lines"
    and "\<forall>m. i < m \<and> m < length lines \<longrightarrow> \<not> contains pat (lines ! m)"
  shows "skip_past pat lines i = Inl IndexError"
  using assms
proof (induction pat lines i rule: skip_past.induct)
  case (1 pat lines i)
  show ?case
  proof (cases "length lines \<le> i + 1")
    case True
    with "1.prems" show ?thesis
      by (subst skip_past.simps) (auto simp: Let_def)
  next
    case False
    with "1.prems" have no: "\<not> contains pat (lines ! (i + 1))"
      by auto
    with False "1.prems" have "skip_past pat lines i = skip_past pat lines (i + 1)"
      by (subst skip_past.simps) (auto simp: Let_def)
    also from False no "1.prems" have "\<dots> = Inl IndexError"
      by (intro "1.IH") auto
    finally show ?thesis .
  qed
qed

lemma skip_past_none_later:
  assumes "i < length lines" and "\<forall>l \<in> set (drop (Suc i) lines). \<not> contains pat l"
  shows "skip_past pat lines i = Inl IndexError"
proof (rule skip_past_no_match[OF assms(1)], intro allI impI)
  fix m
  assume m: "i < m \<and> m < length lines"
  then have "lines ! m = drop (Suc i) lines ! (m - Suc i)"
    and "m - Suc i < length (drop (Suc i) lines)"
    by auto
  then have "lines ! m \<in> set (drop (Suc i) lines)"
    by (metis nth_mem)
  with assms(2) show "\<not> contains pat (lines ! m)"
    by blast
qed

lemma extract_loop_raises:
  "i < length lines \<Longrightarrow> extract_step lines i acc = Inl e \<Longrightarrow> extract_loop lines i acc = Inl e"
  by (subst extract_loop.simps) simp

lemma final_loop_raises:
  "i < length lines \<Longrightarrow> final_step lines i acc = Inl e \<Longrightarrow> final_loop lines i acc = Inl e"
  by (subst final_loop.simps) simp

lemmas final_eval =
  modify_main_final_def final_loop.simps final_step_def slice_def skip_past.simps Let_def

text \<open>The registration step appends its four lines once for every listener line in the window.\<close>

lemma register_loop_count:
  "register_loop lines line js (i, acc) =
     (i + length (filter (\<lambda>j. contains status_change (lines ! j)) js),
      acc @ concat (replicate (length (filter (\<lambda>j. contains status_change (lines ! j)) js))
                      [line, blank_line, register_comment, register_call]))"
  by (induction js arbitrary: i acc) auto

lemma sublist_concat_member: "x \<in> set xs \<Longrightarrow> sublist x (concat xs)"
proof -
  assume "x \<in> set xs"
  then obtain as bs where "xs = as @ x # bs"
    by (auto dest: split_list)
  then have "concat xs = concat as @ x @ concat bs" by simp
  then show ?thesis by (metis sublist_appendI)
qed

lemma window_has_listener:
  assumes "i < length lines" and "j \<in> set [i - 20 ..< i]"
    and "contains status_change (lines ! j)"
  shows "contains ''sshManager.on'' (concat (slice lines (i - 20) i))"
proof -
  from assms(1,2) have "lines ! j = slice lines (i - 20) i ! (j - (i - 20))"
    and "j - (i - 20) < length (slice lines (i - 20) i)"
    by (auto simp: slice_def)
  then have "lines ! j \<in> set (slice lines (i - 20) i)"
    by (metis nth_mem)
  then have "sublist (lines ! j) (concat (slice lines (i - 20) i))"
    by (rule sublist_concat_member)
  moreover have "sublist ''sshManager.on'' status_change"
    by (simp add: contains_iff_sublist[symmetric])
  moreover from assms(3) have "sublist status_change (lines ! j)"
    by (simp only: contains_iff_sublist)
  ultimately show ?thesis
    unfolding contains_iff_sublist by (meson sublist_order.order_trans)
qed

lemma register_step_count:
  assumes "i < length lines" and "contains ''  })'' (lines ! i)"
  shows "register_step lines i acc =
     (i + length (filter (\<lambda>j. contains status_change (lines ! j)) [i - 20 ..< i]),
      acc @ concat (replicate (length (filter (\<lambda>j. contains status_change (lines ! j)) [i - 20 ..< i]))
                      [lines ! i, blank_line, register_comment, register_call]))"
proof (cases "0 < i \<and> contains ''sshManager.on'' (concat (slice lines (i - 20) i))")
  case True
  with assms(2) show ?thesis
    by (simp add: register_step_def Let_def register_loop_count)
next
  case False
  have "filter (\<lambda>j. contains status_change (lines ! j)) [i - 20 ..< i] = []"
  proof (rule ccontr)
    assume "filter (\<lambda>j. contains status_change (lines ! j)) [i - 20 ..< i] \<noteq> []"
    then obtain j where j: "j \<in> set [i - 20 ..< i]" "contains status_change (lines ! j)"
      by (auto simp: filter_empty_conv)
    then have "0 < i" by auto
    moreover from assms(1) j have "contains ''sshManager.on'' (concat (slice lines (i - 20) i))"
      by (rule window_has_listener)
    ultimately show False using False by simp
  qed
  with False show ?thesis
    by (auto simp: register_step_def Let_def)
qed

text \<open>Idle lines are copied.\<close>

lemma extract_step_idle:
  assumes "extract_git_idle i (lines ! i)"
  shows "extract_step lines i acc = Inr (i + 1, acc @ [lines ! i])"
proof -
  from assms have q: "\<not> (i = 16 \<and> contains ''generateFileId'' (lines ! i))"
      "\<not> contains ''interface GitWatcherSet'' (lines ! i)"
      "\<not> contains git_get_info (lines ! i)"
      "\<not> contains ''// Clean up all git watchers'' (lines ! i)"
    and c: "\<not> contains ''  })'' (lines ! i)"
    by (auto simp: extract_git_idle_def)
  from c have r: "register_step lines i acc = (i, acc)"
    by (simp add: register_step_def Let_def)
  show ?thesis
    by (rule extract_step_default[OF q r])
qed

lemma extract_loop_idle_run:
  assumes "m \<le> length lines" and "\<forall>j < m. extract_git_idle j (lines ! j)"
  shows "extract_loop lines 0 [] = extract_loop lines m (take m lines)"
  using assms
proof (induction m)
  case 0
  then show ?case by simp
next
  case (Suc m)
  then have "extract_loop lines 0 [] = extract_loop lines m (take m lines)"
    by simp
  also from Suc.prems have "\<dots> = extract_loop lines (m + 1) (take m lines @ [lines ! m])"
    by (subst extract_loop.simps) (simp add: extract_step_idle)
  finally show ?case
    using Suc.prems(1) by (simp add: take_Suc_conv_app_nth)
qed

text \<open>Writes to one path leave every other path as it was.\<close>

lemma fold_apply_event_other_path:
  "\<forall>e \<in> set events. event_path e \<noteq> p \<Longrightarrow> fold apply_event events files p = files p"
proof (induction events arbitrary: files)
  case Nil
  then show ?case by simp
next
  case (Cons e events)
  then have "fold apply_event events (apply_event e files) p = apply_event e files p"
    by simp
  moreover from Cons.prems have "apply_event e files p = files p"
    by (cases e) auto
  ultimately show ?case by simp
qed

lemma extract_git_writes_paths:
  "e \<in> set (extract_git_writes lines) \<Longrightarrow> event_path e = main_ts"
  by (auto simp: extract_git_writes_def write_back_def split: sum.splits)

text \<open>
  Lines put in front of a document shift every index of \<^verbatim>\<open>extract_git.py\<close>'s scans and
  steps by their number, as long as the test \<open>i = 16\<close> of the import step is not involved.
\<close>

lemma skip_past_shift:
  "skip_past pat (P @ D) (length P + i) =
     (case skip_past pat D i of Inl e \<Rightarrow> Inl e | Inr k \<Rightarrow> Inr (length P + k))"
proof (induction pat D i rule: skip_past.induct)
  case (1 pat D i)
  show ?case
  proof (cases "i < length D")
    case False
    then show ?thesis
      by (simp add: skip_past_end)
  next
    case True
    show ?thesis
    proof (cases "length D \<le> i + 1")
      case stop: True
      with True have "skip_past pat D i = Inl IndexError"
        by (subst skip_past.simps) (simp add: Let_def)
      moreover from True stop have "skip_past pat (P @ D) (length P + i) = Inl IndexError"
        by (subst skip_past.simps) (simp add: Let_def)
      ultimately show ?thesis by simp
    next
      case inside: False
      then have nth: "(P @ D) ! (length P + i + 1) = D ! (i + 1)"
        by (simp add: nth_append)
      show ?thesis
      proof (cases "contains pat (D ! (i + 1))")
        case found: True
        with True inside have "skip_past pat D i = Inr (i + 2)"
          by (subst skip_past.simps) (simp add: Let_def)
        moreover from True inside found nth
        have "skip_past pat (P @ D) (length P + i) = Inr (length P + i + 2)"
          by (subst skip_past.simps) (simp add: Let_def)
        ultimately show ?thesis by simp
      next
        case miss: False
        with True inside have l: "skip_past pat D i = skip_past pat D (i + 1)"
          by (subst skip_past.simps) (simp add: Let_def)
        from True inside miss nth
        have "skip_past pat (P @ D) (length P + i) = skip_past pat (P @ D) (length P + (i + 1))"
          by (subst skip_past.simps) (simp add: Let_def add.assoc)
        also have "\<dots> = (case skip_past pat D (i + 1) of
                           Inl e \<Rightarrow> Inl e | Inr k \<Rightarrow> Inr (length P + k))"
          using True inside miss by (intro "1.IH") auto
        finally show ?thesis by (simp add: l)
      qed
    qed
  qed
qed

lemma skip_handlers_shift:
  "skip_handlers (P @ D) (length P + i) = length P + skip_handlers D i"
proof (induction D i rule: skip_handlers.induct)
  case (1 D i)
  show ?case
  proof (cases "i < length D")
    case False
    then have "skip_handlers D i = i" "skip_handlers (P @ D) (length P + i) = length P + i"
      by (subst skip_handlers.simps, simp)+
    then show ?thesis by simp
  next
    case True
    let ?stop = "length D \<le> i + 1
       \<or> (contains ''ipcMain.handle('' (D ! (i + 1)) \<and> \<not> contains git_pull (D ! (i + 1)))
       \<or> contains ''// File system IPC handlers'' (D ! (i + 1))"
    have nth: "(P @ D) ! (length P + i + 1) = D ! (i + 1)"
      by (simp add: nth_append)
    show ?thesis
    proof (cases ?stop)
      case stop: True
      with True have "skip_handlers D i = i + 1"
        by (subst skip_handlers.simps) (auto simp: Let_def)
      moreover from True stop nth have "skip_handlers (P @ D) (length P + i) = length P + i + 1"
        by (subst skip_handlers.simps) (auto simp: Let_def)
      ultimately show ?thesis by simp
    next
      case go: False
      with True have l: "skip_handlers D i = skip_handlers D (i + 1)"
        by (subst skip_handlers.simps) (auto simp: Let_def)
      from True go nth
      have "skip_handlers (P @ D) (length P + i) = skip_handlers (P @ D) (length P + (i + 1))"
        by (subst skip_handlers.simps) (auto simp: Let_def add.assoc)
      also have "\<dots> = length P + skip_handlers D (i + 1)"
        using True go by (intro "1.IH") auto
      finally show ?thesis by (simp add: l)
    qed
  qed
qed

lemma listener_count_shift:
  assumes "\<forall>l \<in> set P. \<not> contains status_change l"
  shows "length (filter (\<lambda>j. contains status_change ((P @ D) ! j))
                        [length P + i - 20 ..< length P + i])
       = length (filter (\<lambda>j. contains status_change (D ! j)) [i - 20 ..< i])"
proof -
  let ?n = "length P"
  let ?Q = "\<lambda>j. contains status_change ((P @ D) ! j)"
  have le: "?n + i - 20 \<le> ?n + (i - 20)" and le2: "?n + (i - 20) \<le> ?n + i"
    by simp_all
  have split: "[?n + i - 20 ..< ?n + i] = [?n + i - 20 ..< ?n + (i - 20)] @ [?n + (i - 20) ..< ?n + i]"
    using le le2 by (metis le_Suc_ex upt_add_eq_append)
  have "filter ?Q [?n + i - 20 ..< ?n + (i - 20)] = []"
  proof -
    have "j < ?n" if "j \<in> set [?n + i - 20 ..< ?n + (i - 20)]" for j
      using that by auto
    with assms show ?thesis
      by (auto simp: filter_empty_conv nth_append)
  qed
  moreover have "[?n + (i - 20) ..< ?n + i] = map (\<lambda>j. j + ?n) [i - 20 ..< i]"
    by (rule nth_equalityI) (auto simp: add.commute)
  ultimately have "filter ?Q [?n + i - 20 ..< ?n + i]
      = filter ?Q (map (\<lambda>j. j + ?n) [i - 20 ..< i])"
    by (simp add: split)
  also have "\<dots> = map (\<lambda>j. j + ?n) (filter (\<lambda>j. contains status_change (D ! j)) [i - 20 ..< i])"
    by (simp add: filter_map comp_def nth_append)
  finally show ?thesis by simp
qed

lemma register_step_shift:
  assumes "i < length D" and "\<forall>l \<in> set P. \<not> contains status_change l"
  shows "register_step (P @ D) (length P + i) (P @ acc) =
     (case register_step D i acc of (i4, acc4) \<Rightarrow> (length P + i4, P @ acc4))"
proof (cases "contains ''  })'' (D ! i)")
  case True
  have nth: "(P @ D) ! (length P + i) = D ! i"
    by (simp add: nth_append)
  from assms(1) have lt: "length P + i < length (P @ D)"
    by simp
  from True nth have close: "contains ''  })'' ((P @ D) ! (length P + i))"
    by simp
  note c = listener_count_shift[OF assms(2), of D i]
  show ?thesis
    unfolding register_step_count[OF assms(1) True] register_step_count[OF lt close] c nth
    by simp
next
  case False
  then show ?thesis
    by (simp add: register_step_def Let_def nth_append)
qed

lemma extract_step_shift:
  assumes "i < length D" and "\<forall>l \<in> set P. \<not> contains status_change l"
    and "\<not> (i = 16 \<and> contains ''generateFileId'' (D ! i))"
    and "\<not> (length P + i = 16 \<and> contains ''generateFileId'' (D ! i))"
  shows "extract_step (P @ D) (length P + i) (P @ acc) =
     (case extract_step D i acc of
        Inl e \<Rightarrow> Inl e
      | Inr (i', acc') \<Rightarrow> Inr (length P + i', P @ acc'))"
proof -
  let ?L = "P @ D" and ?n = "length P"
  have nth: "?L ! (?n + i) = D ! i"
    by (simp add: nth_append)
  from assms(4) nth have g: "\<not> (?n + i = 16 \<and> contains ''generateFileId'' (?L ! (?n + i)))"
    by simp
  obtain i4 acc4 where r: "register_step D i acc = (i4, acc4)"
    by (cases "register_step D i acc")
  with register_step_shift[OF assms(1,2), of acc]
  have r': "register_step ?L (?n + i) (P @ acc) = (?n + i4, P @ acc4)"
    by simp
  consider (interface) "contains ''interface GitWatcherSet'' (D ! i)"
    | (handlers) "\<not> contains ''interface GitWatcherSet'' (D ! i)" "contains git_get_info (D ! i)"
    | (cleanup) "\<not> contains ''interface GitWatcherSet'' (D ! i)" "\<not> contains git_get_info (D ! i)"
        "contains ''// Clean up all git watchers'' (D ! i)"
    | (default) "\<not> contains ''interface GitWatcherSet'' (D ! i)" "\<not> contains git_get_info (D ! i)"
        "\<not> contains ''// Clean up all git watchers'' (D ! i)"
    by blast
  then show ?thesis
  proof cases
    case interface
    from interface nth have "contains ''interface GitWatcherSet'' (?L ! (?n + i))"
      by simp
    from extract_step_interface[OF g this] extract_step_interface[OF assms(3) interface]
    show ?thesis
      by (simp add: skip_past_shift split: sum.splits)
  next
    case handlers
    from handlers nth have "\<not> contains ''interface GitWatcherSet'' (?L ! (?n + i))"
      "contains git_get_info (?L ! (?n + i))"
      by simp_all
    from extract_step_handlers[OF g this] extract_step_handlers[OF assms(3) handlers]
    show ?thesis
      by (simp add: skip_handlers_shift)
  next
    case cleanup
    from cleanup nth have "\<not> contains ''interface GitWatcherSet'' (?L ! (?n + i))"
      "\<not> contains git_get_info (?L ! (?n + i))"
      "contains ''// Clean up all git watchers'' (?L ! (?n + i))"
      by simp_all
    from extract_step_cleanup[OF g this r'] extract_step_cleanup[OF assms(3) cleanup r]
    show ?thesis
      by (simp add: skip_past_shift split: sum.splits)
  next
    case default
    from default nth have "\<not> contains ''interface GitWatcherSet'' (?L ! (?n + i))"
      "\<not> contains git_get_info (?L ! (?n + i))"
      "\<not> contains ''// Clean up all git watchers'' (?L ! (?n + i))"
      by simp_all
    from extract_step_default[OF g this r'] extract_step_default[OF assms(3) default r] nth
    show ?thesis
      by simp
  qed
qed

lemma extract_loop_shift:
  assumes "\<forall>l \<in> set P. \<not> contains status_change l"
    and "\<forall>i < length D. \<not> (i = 16 \<and> contains ''generateFileId'' (D ! i))
                        \<and> \<not> (length P + i = 16 \<and> contains ''generateFileId'' (D ! i))"
  shows "extract_loop (P @ D) (length P + i) (P @ acc) =
     (case extract_loop D i acc of Inl e \<Rightarrow> Inl e | Inr out \<Rightarrow> Inr (P @ out))"
  using assms
proof (induction D i acc rule: extract_loop.induct)
  case (1 D i acc)
  show ?case
  proof (cases "i < length D")
    case False
    then have "extract_loop D i acc = Inr acc"
      and "extract_loop (P @ D) (length P + i) (P @ acc) = Inr (P @ acc)"
      by (subst extract_loop.simps, simp)+
    then show ?thesis by simp
  next
    case True
    with "1.prems" have g: "\<not> (i = 16 \<and> contains ''generateFileId'' (D ! i))"
      "\<not> (length P + i = 16 \<and> contains ''generateFileId'' (D ! i))"
      by blast+
    note s = extract_step_shift[OF True "1.prems"(1) g, of acc]
    show ?thesis
    proof (cases "extract_step D i acc")
      case (Inl e)
      with True s have "extract_loop D i acc = Inl e"
        and "extract_loop (P @ D) (length P + i) (P @ acc) = Inl e"
        by (subst extract_loop.simps, simp)+
      then show ?thesis by simp
    next
      case (Inr st)
      obtain i' acc' where st: "st = (i', acc')"
        by (cases st)
      with Inr True have l: "extract_loop D i acc = extract_loop D i' acc'"
        by (subst extract_loop.simps) simp
      from Inr st True s
      have "extract_loop (P @ D) (length P + i) (P @ acc)
          = extract_loop (P @ D) (length P + i') (P @ acc')"
        by (subst extract_loop.simps) simp
      also have "\<dots> = (case extract_loop D i' acc' of
                         Inl e \<Rightarrow> Inl e | Inr out \<Rightarrow> Inr (P @ out))"
        using Inr st "1.prems" by (intro "1.IH"[OF True]) auto
      finally show ?thesis by (simp add: l)
    qed
  qed
qed

text \<open>An iteration at a line that no step takes copies the line; so does a run of them.\<close>

lemma modify_step_copy:
  "\<not> modify_takes lines i \<Longrightarrow> modify_step lines i acc = (i + 1, acc @ [lines ! i])"
  by (auto simp: modify_takes_def modify_step_def Let_def)

lemma modify_takes_line_number:
  "modify_takes lines i \<Longrightarrow> i \<in> {16, 433, 491, 977, 506}"
  by (auto simp: modify_takes_def Let_def)

lemma modify_loop_copy_run:
  assumes "m \<le> length lines" and "\<forall>j < m. \<not> modify_takes lines j"
  shows "modify_loop lines 0 [] = modify_loop lines m (take m lines)"
  using assms
proof (induction m)
  case 0
  then show ?case by simp
next
  case (Suc m)
  then have "modify_loop lines 0 [] = modify_loop lines m (take m lines)"
    by simp
  also from Suc.prems have "\<dots> = modify_loop lines (m + 1) (take m lines @ [lines ! m])"
    by (subst modify_loop.simps) (simp add: modify_step_copy)
  finally show ?case
    using Suc.prems(1) by (simp add: take_Suc_conv_app_nth)
qed

lemma register_step_no_listener:
  assumes "\<not> (0 < i \<and> contains ''  })'' (lines ! i)
            \<and> contains ''sshManager.on'' (concat (slice lines (i - 20) i))
            \<and> (\<exists>j \<in> set [i - 20 ..< i]. contains status_change (lines ! j)))"
  shows "register_step lines i acc = (i, acc)"
proof (cases "0 < i \<and> contains ''  })'' (lines ! i)
            \<and> contains ''sshManager.on'' (concat (slice lines (i - 20) i))")
  case True
  with assms have "filter (\<lambda>j. contains status_change (lines ! j)) [i - 20 ..< i] = []"
    by (auto simp: filter_empty_conv)
  with True show ?thesis
    by (simp add: register_step_def Let_def register_loop_count)
next
  case False
  then show ?thesis
    by (auto simp: register_step_def Let_def)
qed

lemma extract_step_copy:
  assumes "\<not> extract_git_takes lines i"
  shows "extract_step lines i acc = Inr (i + 1, acc @ [lines ! i])"
proof -
  from assms have q: "\<not> (i = 16 \<and> contains ''generateFileId'' (lines ! i))"
      "\<not> contains ''interface GitWatcherSet'' (lines ! i)"
      "\<not> contains git_get_info (lines ! i)"
      "\<not> contains ''// Clean up all git watchers'' (lines ! i)"
    and c: "\<not> (0 < i \<and> contains ''  })'' (lines ! i)
            \<and> contains ''sshManager.on'' (concat (slice lines (i - 20) i))
            \<and> (\<exists>j \<in> set [i - 20 ..< i]. contains status_change (lines ! j)))"
    unfolding extract_git_takes_def Let_def by blast+
  from c have r: "register_step lines i acc = (i, acc)"
    by (rule register_step_no_listener)
  show ?thesis
    by (rule extract_step_default[OF q r])
qed

lemma extract_loop_copy_run:
  assumes "m \<le> length lines" and "\<forall>j < m. \<not> extract_git_takes lines j"
  shows "extract_loop lines 0 [] = extract_loop lines m (take m lines)"
  using assms
proof (induction m)
  case 0
  then show ?case by simp
next
  case (Suc m)
  then have "extract_loop lines 0 [] = extract_loop lines m (take m lines)"
    by simp
  also from Suc.prems have "\<dots> = extract_loop lines (m + 1) (take m lines @ [lines ! m])"
    by (subst extract_loop.simps) (simp add: extract_step_copy)
  finally show ?case
    using Suc.prems(1) by (simp add: take_Suc_conv_app_nth)
qed

lemma v2_body_copy:
  "\<not> v2_takes lines i \<Longrightarrow> v2_body lines (None, acc) i = (None, acc @ [lines ! i])"
  by (auto simp: v2_body_def v2_takes_def Let_def)

lemma v2_copies_from:
  assumes "a \<le> n" and "n \<le> length lines"
    and "\<forall>i. a \<le> i \<and> i < n \<longrightarrow> \<not> v2_takes lines i"
  shows "foldl (v2_body lines) (None, acc) [a ..< n] = (None, acc @ slice lines a n)"
  using assms
proof (induction n)
  case 0
  then show ?case by (simp add: slice_def)
next
  case (Suc n)
  show ?case
  proof (cases "a = Suc n")
    case True
    then show ?thesis by (simp add: slice_def)
  next
    case False
    with Suc.prems have an: "a \<le> n" and n: "n < length lines"
      by simp_all
    with Suc have ih: "foldl (v2_body lines) (None, acc) [a ..< n] = (None, acc @ slice lines a n)"
      by simp
    from Suc.prems an have "\<not> v2_takes lines n"
      by simp
    then have "v2_body lines (None, acc @ slice lines a n) n
        = (None, (acc @ slice lines a n) @ [lines ! n])"
      by (rule v2_body_copy)
    moreover from an n have "slice lines a n @ [lines ! n] = slice lines a (Suc n)"
      by (simp add: slice_def Suc_diff_le take_Suc_conv_app_nth)
    ultimately show ?thesis
      using an ih by simp
  qed
qed

text \<open>The forward scan raises exactly when it starts inside the document and finds nothing.\<close>

lemma skip_past_raises_iff:
  "skip_past pat lines i = Inl e \<longleftrightarrow>
     i < length lines \<and> (\<forall>l \<in> set (drop (Suc i) lines). \<not> contains pat l)"
proof (induction pat lines i rule: skip_past.induct)
  case (1 pat lines i)
  show ?case
  proof (cases "i < length lines")
    case False
    then show ?thesis
      by (simp add: skip_past_end)
  next
    case True
    show ?thesis
    proof (cases "length lines \<le> i + 1")
      case stop: True
      with True have "skip_past pat lines i = Inl IndexError"
        by (subst skip_past.simps) (simp add: Let_def)
      with True stop show ?thesis
        by (cases e) simp
    next
      case inside: False
      then have d: "drop (Suc i) lines = lines ! (i + 1) # drop (Suc (i + 1)) lines"
        by (simp add: Cons_nth_drop_Suc)
      show ?thesis
      proof (cases "contains pat (lines ! (i + 1))")
        case found: True
        with True inside have "skip_past pat lines i = Inr (i + 2)"
          by (subst skip_past.simps) (simp add: Let_def)
        with found d show ?thesis
          by simp
      next
        case miss: False
        with True inside have "skip_past pat lines i = skip_past pat lines (i + 1)"
          by (subst skip_past.simps) (simp add: Let_def)
        moreover have "skip_past pat lines (i + 1) = Inl e \<longleftrightarrow>
            i + 1 < length lines \<and> (\<forall>l \<in> set (drop (Suc (i + 1)) lines). \<not> contains pat l)"
          using True inside miss by (intro "1.IH") auto
        ultimately show ?thesis
          using True inside miss d by simp
      qed
    qed
  qed
qed

lemma find_first_after:
  assumes "i < j" and "j < n" and "P j" and "\<forall>m. i < m \<and> m < j \<longrightarrow> \<not> P m"
  shows "find P [i + 1 ..< n] = Some j"
  unfolding find_Some_iff
proof (intro exI[of _ "j - (i + 1)"] conjI allI impI)
  from assms(1,2) show "j - (i + 1) < length [i + 1 ..< n]"
    by simp
  from assms(1,2) have nth: "[i + 1 ..< n] ! (j - (i + 1)) = j"
    by simp
  with assms(3) show "P ([i + 1 ..< n] ! (j - (i + 1)))"
    by simp
  from nth show "j = [i + 1 ..< n] ! (j - (i + 1))"
    by simp
  fix m assume m: "m < j - (i + 1)"
  with assms(2) have "[i + 1 ..< n] ! m = i + 1 + m"
    by simp
  with m assms(4) show "\<not> P ([i + 1 ..< n] ! m)"
    by simp
qed

text \<open>
  The registration step of \<^verbatim>\<open>extract_git.py\<close> on a closing line with \<open>k\<close> listener lines in
  its window: the closing line and the registration lines \<open>k\<close> times, the closing line once
  more, and the \<open>k\<close> lines after it never read.
\<close>

lemma extract_step_registration:
  assumes "i < length lines"
    and "\<not> (i = 16 \<and> contains ''generateFileId'' (lines ! i))"
    and "\<not> contains ''interface GitWatcherSet'' (lines ! i)"
    and "\<not> contains git_get_info (lines ! i)"
    and "contains ''  })'' (lines ! i)"
    and "\<not> contains ''// Clean up all git watchers'' (lines ! i)"
    and "k = length (filter (\<lambda>j. contains status_change (lines ! j)) [i - 20 ..< i])"
  shows "extract_step lines i acc =
     Inr (i + k + 1,
          acc @ concat (replicate k [lines ! i, blank_line, register_comment, register_call])
              @ [lines ! i])"
  using extract_step_default[OF assms(2,3,4,6) register_step_count[OF assms(1,5)], of acc] assms(7)
  by simp


section \<open>C1: what decides where an edit applies\<close>

text \<open>
  C1 (as the code has it).  In \<^verbatim>\<open>modify_main.py\<close> an edit is placed by a hardcoded
  absolute line number.  If none of the lines numbered 17, 434, 492, 978 and 507 passes
  the test of the step written for that number, the run writes the document back
  unchanged, whatever its lines contain.  An iteration of the main loop at a line that
  passes no such test copies that line; an iteration at a line that passes one performs
  the edit of that line number: the import at 17, ten lines skipped at 434, the
  registration at 492, 701 lines skipped at 978, the clean-up replacement with 13 lines
  skipped at 507.
\<close>

theorem modify_step_keyed_on_line_number:
  "((\<forall>i \<in> {16, 433, 491, 977, 506}. i < length lines \<longrightarrow> \<not> modify_takes lines i)
      \<longrightarrow> modify_main lines = lines)
   \<and> (\<not> modify_takes lines i \<longrightarrow> modify_step lines i acc = (i + 1, acc @ [lines ! i]))
   \<and> (modify_takes lines i \<longrightarrow>
        modify_step lines i acc =
          (if i + 1 = 17 then (i + 1, acc @ [import_line, lines ! i])
           else if i + 1 = 434 then (i + 10, acc)
           else if i + 1 = 492 then
             (i + 1, acc @ [lines ! i, blank_line, register_comment, register_call])
           else if i + 1 = 978 then (i + 701, acc)
           else (i + 13, acc @ [cleanup_comment, cleanup_call])))"
proof (intro conjI impI)
  assume a: "\<forall>i \<in> {16, 433, 491, 977, 506}. i < length lines \<longrightarrow> \<not> modify_takes lines i"
  have "\<forall>j < length lines. \<not> modify_takes lines j"
    using a modify_takes_line_number by blast
  then have "modify_loop lines 0 [] = modify_loop lines (length lines) (take (length lines) lines)"
    by (intro modify_loop_copy_run) simp_all
  also have "\<dots> = lines"
    by (subst modify_loop.simps) simp
  finally show "modify_main lines = lines"
    by (simp add: modify_main_def)
next
  assume "\<not> modify_takes lines i"
  then show "modify_step lines i acc = (i + 1, acc @ [lines ! i])"
    by (rule modify_step_copy)
next
  assume "modify_takes lines i"
  then show "modify_step lines i acc =
          (if i + 1 = 17 then (i + 1, acc @ [import_line, lines ! i])
           else if i + 1 = 434 then (i + 10, acc)
           else if i + 1 = 492 then
             (i + 1, acc @ [lines ! i, blank_line, register_comment, register_call])
           else if i + 1 = 978 then (i + 701, acc)
           else (i + 13, acc @ [cleanup_comment, cleanup_call]))"
    by (auto simp: modify_takes_def modify_step_def Let_def)
qed

theorem modify_step_keyed_on_line_number_witness:
  "modify_main [''interface GitWatcherSet {\<newline>'', ''}\<newline>'']
     = [''interface GitWatcherSet {\<newline>'', ''}\<newline>'']
   \<and> modify_step [''interface GitWatcherSet {\<newline>'', ''}\<newline>''] 0 []
     = (1, [''interface GitWatcherSet {\<newline>''])
   \<and> modify_step (replicate 433 blank_line @ [''interface GitWatcherSet {\<newline>'', ''}\<newline>'']) 433 []
     = (443, [])"
  using
    modify_step_keyed_on_line_number[of "[''interface GitWatcherSet {\<newline>'', ''}\<newline>'']" 0 "[]"]
    modify_step_keyed_on_line_number[of "replicate 433 blank_line @ [''interface GitWatcherSet {\<newline>'', ''}\<newline>'']" 433 "[]"]
  by (simp add: modify_takes_def nth_append)

text \<open>
  The content pattern of the interface deletion matches line 1 of this document and its
  terminator matches line 4, but nothing is deleted: the block is not at line 434.
\<close>

theorem modify_main_ignores_content_match_counterexample:
  "modify_main [''interface GitWatcherSet {\<newline>'', ''  watcher: FSWatcher\<newline>'', ''}\<newline>'',
                ''const GIT_DEBOUNCE_MS = 300\<newline>'']
   = [''interface GitWatcherSet {\<newline>'', ''  watcher: FSWatcher\<newline>'', ''}\<newline>'',
      ''const GIT_DEBOUNCE_MS = 300\<newline>'']"
  by (simp add: modify_eval)


section \<open>C2: running the script on its own output\<close>

text \<open>
  C2 (as the code has it).  On a document on which the test of no step of
  \<^verbatim>\<open>extract_git.py\<close> holds, and so on its own output when that is such a document, the run
  writes back exactly the lines it read; the file is opened for writing and written all
  the same.
\<close>

theorem extract_git_rewrites_idle_document:
  assumes "\<forall>i < length lines. \<not> extract_git_takes lines i"
  shows "extract_git lines = Inr lines
       \<and> extract_git_writes lines = [Open_write main_ts, Writelines main_ts lines]"
proof -
  from assms have "extract_loop lines 0 [] = extract_loop lines (length lines) (take (length lines) lines)"
    by (intro extract_loop_copy_run) simp_all
  also have "\<dots> = Inr lines"
    by (subst extract_loop.simps) simp
  finally show ?thesis
    by (simp add: extract_git_def extract_git_writes_def write_back_def)
qed

theorem extract_git_rewrites_idle_document_witness:
  "extract_git [''import { app } from 'electron'\<newline>'', ''app.on('ready', () => {\<newline>'', ''  })\<newline>'']
     = Inr [''import { app } from 'electron'\<newline>'', ''app.on('ready', () => {\<newline>'', ''  })\<newline>'']
   \<and> extract_git_writes
       [''import { app } from 'electron'\<newline>'', ''app.on('ready', () => {\<newline>'', ''  })\<newline>'']
     = [Open_write main_ts,
        Writelines main_ts
          [''import { app } from 'electron'\<newline>'', ''app.on('ready', () => {\<newline>'', ''  })\<newline>'']]"
proof -
  let ?D = "[''import { app } from 'electron'\<newline>'', ''app.on('ready', () => {\<newline>'', ''  })\<newline>'']"
  have "\<not> extract_git_takes ?D 0" "\<not> extract_git_takes ?D 1" "\<not> extract_git_takes ?D 2"
    by (simp_all add: extract_git_takes_def slice_def)
  then have "\<forall>i < length ?D. \<not> extract_git_takes ?D i"
    by (simp add: less_Suc_eq numeral_2_eq_2)
  then show ?thesis
    by (rule extract_git_rewrites_idle_document)
qed

text \<open>
  The first run inserts the import after the line at index 16; the second run, on the
  output of the first, inserts it again.
\<close>

theorem extract_git_second_run_counterexample:
  "extract_git (replicate 16 blank_line @ [''import { generateFileId } from './utils'\<newline>''])
     = Inr (replicate 16 blank_line @ [''import { generateFileId } from './utils'\<newline>'', import_line])
   \<and> extract_git (replicate 16 blank_line @ [''import { generateFileId } from './utils'\<newline>'', import_line])
     = Inr (replicate 16 blank_line
            @ [''import { generateFileId } from './utils'\<newline>'', import_line, import_line])"
  by code_simp


section \<open>C3: a missing anchor\<close>

text \<open>
  C3 (as the code has it).  In \<^verbatim>\<open>modify_main_v2.py\<close> a missing anchor is no failure.  When
  no line passes the test of any step, the run writes back the lines it read.  When line
  16 contains \<^verbatim>\<open>generateFileId\<close> and no other line passes the test of any step, so that
  the anchor of every other step is missing, the import step is applied alone: the run
  writes the document with the import line inserted after line 16.
\<close>

theorem modify_main_v2_applies_what_it_finds:
  "((\<forall>i < length lines. \<not> v2_takes lines i) \<longrightarrow> modify_main_v2 lines = lines)
   \<and> (15 < length lines \<and> contains ''generateFileId'' (lines ! 15)
        \<and> (\<forall>i < length lines. i \<noteq> 15 \<longrightarrow> \<not> v2_takes lines i)
      \<longrightarrow> modify_main_v2 lines = take 16 lines @ [import_line] @ drop 16 lines)"
proof (intro conjI impI)
  assume "\<forall>i < length lines. \<not> v2_takes lines i"
  then have "foldl (v2_body lines) (None, []) [0 ..< length lines]
      = (None, [] @ slice lines 0 (length lines))"
    by (intro v2_copies_from) simp_all
  then show "modify_main_v2 lines = lines"
    by (simp add: modify_main_v2_def slice_def)
next
  assume a: "15 < length lines \<and> contains ''generateFileId'' (lines ! 15)
        \<and> (\<forall>i < length lines. i \<noteq> 15 \<longrightarrow> \<not> v2_takes lines i)"
  then have len: "15 < length lines" and g: "contains ''generateFileId'' (lines ! 15)"
    and idle: "\<forall>i < length lines. i \<noteq> 15 \<longrightarrow> \<not> v2_takes lines i"
    by simp_all
  have split: "[0 ..< length lines] = [0 ..< 15] @ 15 # [16 ..< length lines]"
  proof -
    from len have "[0 ..< length lines] = [0 ..< 15] @ [15 ..< length lines]"
      by (metis less_imp_le_nat upt_add_eq_append le_add_diff_inverse zero_le)
    moreover from len have "[15 ..< length lines] = 15 # [16 ..< length lines]"
      by (simp add: upt_conv_Cons)
    ultimately show ?thesis by simp
  qed
  have before: "foldl (v2_body lines) (None, []) [0 ..< 15] = (None, [] @ slice lines 0 15)"
    using len idle by (intro v2_copies_from) simp_all
  have at: "v2_body lines (None, take 15 lines) 15 = (None, take 15 lines @ [lines ! 15, import_line])"
    using g by (simp add: v2_body_def Let_def)
  have t16: "take 15 lines @ [lines ! 15] = take 16 lines"
    using len take_Suc_conv_app_nth[of 15 lines] by simp
  have after: "foldl (v2_body lines) (None, take 16 lines @ [import_line]) [16 ..< length lines]
      = (None, (take 16 lines @ [import_line]) @ slice lines 16 (length lines))"
    using len idle by (intro v2_copies_from) simp_all
  have "foldl (v2_body lines) (None, []) [0 ..< length lines]
      = foldl (v2_body lines) (None, take 15 lines @ [lines ! 15, import_line]) [16 ..< length lines]"
    by (simp add: split before at slice_def)
  also have "take 15 lines @ [lines ! 15, import_line] = take 16 lines @ [import_line]"
    using t16 by simp
  finally show "modify_main_v2 lines = take 16 lines @ [import_line] @ drop 16 lines"
    by (simp add: modify_main_v2_def after slice_def)
qed

theorem modify_main_v2_applies_what_it_finds_witness:
  "modify_main_v2 [''interface GitWatcherSet {\<newline>'', ''const GIT_DEBOUNCE_MS = 300\<newline>'']
     = [''interface GitWatcherSet {\<newline>'', ''const GIT_DEBOUNCE_MS = 300\<newline>'']
   \<and> modify_main_v2
       (replicate 15 blank_line
        @ [''import { generateFileId } from './utils/id'\<newline>'', ''interface GitWatcherSet {\<newline>''])
     = replicate 15 blank_line
        @ [''import { generateFileId } from './utils/id'\<newline>'', import_line,
           ''interface GitWatcherSet {\<newline>'']"
proof -
  let ?D = "replicate 15 blank_line
        @ [''import { generateFileId } from './utils/id'\<newline>'', ''interface GitWatcherSet {\<newline>'']"
  have idle: "\<forall>i < length ?D. i \<noteq> 15 \<longrightarrow> \<not> v2_takes ?D i"
  proof (intro allI impI)
    fix i assume "i < length ?D" and "i \<noteq> 15"
    then consider "i < 15" | "i = 16" by fastforce
    then show "\<not> v2_takes ?D i"
      by cases (simp_all add: v2_takes_def nth_append)
  qed
  have "15 < length ?D \<and> contains ''generateFileId'' (?D ! 15)"
    by (simp add: nth_append)
  with idle modify_main_v2_applies_what_it_finds[of ?D] have "modify_main_v2 ?D = take 16 ?D @ [import_line] @ drop 16 ?D"
    by blast
  moreover have
    "modify_main_v2 [''interface GitWatcherSet {\<newline>'', ''const GIT_DEBOUNCE_MS = 300\<newline>'']
     = [''interface GitWatcherSet {\<newline>'', ''const GIT_DEBOUNCE_MS = 300\<newline>'']"
    using modify_main_v2_applies_what_it_finds[of "[''interface GitWatcherSet {\<newline>'', ''const GIT_DEBOUNCE_MS = 300\<newline>'']"]
    by (simp add: less_Suc_eq v2_takes_def)
  ultimately show ?thesis
    by simp
qed

text \<open>
  This document has the anchor of the import step at line 16 and no other anchor.  The run
  does not fail: it applies the import step alone and writes the result.
\<close>

theorem modify_main_v2_partial_application_counterexample:
  "modify_main_v2 (replicate 15 blank_line @ [''import { generateFileId } from './utils'\<newline>''])
     = replicate 15 blank_line @ [''import { generateFileId } from './utils'\<newline>'', import_line]"
  by code_simp


section \<open>C4: how the result reaches the file\<close>

text \<open>
  C4 (as the code has it).  \<^verbatim>\<open>extract_git.py\<close> writes to \<^verbatim>\<open>electron/main.ts\<close> itself: whenever
  the run is interrupted, every other path holds what it held before; when the loop
  raises, nothing is written at all; when the loop completes, the file is empty after
  the first write event (the open for writing) and holds the new lines after the second.
\<close>

theorem extract_git_writes_in_place:
  "(p \<noteq> main_ts \<longrightarrow> interrupted_after k (extract_git_writes lines) files p = files p)
   \<and> (extract_git lines = Inl e \<longrightarrow> interrupted_after k (extract_git_writes lines) files = files)
   \<and> (extract_git lines = Inr new_lines \<longrightarrow>
        interrupted_after 1 (extract_git_writes lines) files main_ts = Some []
      \<and> interrupted_after 2 (extract_git_writes lines) files main_ts = Some (concat new_lines))"
proof (intro conjI impI)
  assume "p \<noteq> main_ts"
  then have "\<forall>e \<in> set (take k (extract_git_writes lines)). event_path e \<noteq> p"
    by (auto dest!: in_set_takeD extract_git_writes_paths)
  then show "interrupted_after k (extract_git_writes lines) files p = files p"
    unfolding interrupted_after_def by (rule fold_apply_event_other_path)
next
  assume "extract_git lines = Inl e"
  then show "interrupted_after k (extract_git_writes lines) files = files"
    by (simp add: interrupted_after_def extract_git_writes_def)
next
  assume "extract_git lines = Inr new_lines"
  then show "interrupted_after 1 (extract_git_writes lines) files main_ts = Some []"
    by (simp add: interrupted_after_def extract_git_writes_def write_back_def)
next
  assume "extract_git lines = Inr new_lines"
  then show "interrupted_after 2 (extract_git_writes lines) files main_ts = Some (concat new_lines)"
    by (simp add: interrupted_after_def extract_git_writes_def write_back_def numeral_2_eq_2)
qed

theorem extract_git_writes_in_place_witness:
  "interrupted_after 1 (extract_git_writes [''app.whenReady()\<newline>''])
      [main_ts \<mapsto> ''app.whenReady()\<newline>''] ''electron/main.ts.tmp'' = None
   \<and> interrupted_after 2 (extract_git_writes [''interface GitWatcherSet {\<newline>'', ''}\<newline>''])
      [main_ts \<mapsto> ''interface GitWatcherSet {\<newline>}\<newline>'']
      = [main_ts \<mapsto> ''interface GitWatcherSet {\<newline>}\<newline>'']
   \<and> interrupted_after 1 (extract_git_writes [''app.whenReady()\<newline>''])
      [main_ts \<mapsto> ''app.whenReady()\<newline>''] main_ts = Some []
   \<and> interrupted_after 2 (extract_git_writes [''app.whenReady()\<newline>''])
      [main_ts \<mapsto> ''app.whenReady()\<newline>''] main_ts = Some ''app.whenReady()\<newline>''"
  using
    extract_git_writes_in_place[of "''electron/main.ts.tmp''" 1 "[''app.whenReady()\<newline>'']"
          "[main_ts \<mapsto> ''app.whenReady()\<newline>'']" IndexError "[''app.whenReady()\<newline>'']"]
    extract_git_writes_in_place[of main_ts 2 "[''interface GitWatcherSet {\<newline>'', ''}\<newline>'']"
          "[main_ts \<mapsto> ''interface GitWatcherSet {\<newline>}\<newline>'']" IndexError "[]"]
  by (simp add: extract_git_eval)

text \<open>
  No event of this run names a temporary path, and an interruption after the first event
  leaves \<^verbatim>\<open>electron/main.ts\<close> empty instead of unchanged.
\<close>

theorem extract_git_truncates_original_counterexample:
  "extract_git_writes [''import { app } from 'electron'\<newline>'', ''app.whenReady()\<newline>'']
     = [Open_write main_ts,
        Writelines main_ts [''import { app } from 'electron'\<newline>'', ''app.whenReady()\<newline>'']]
   \<and> interrupted_after 1
        (extract_git_writes [''import { app } from 'electron'\<newline>'', ''app.whenReady()\<newline>''])
        [main_ts \<mapsto> ''import { app } from 'electron'\<newline>app.whenReady()\<newline>''] main_ts
     = Some []"
  by (simp add: extract_git_eval extract_git_writes_def write_back_def interrupted_after_def)


section \<open>C5: lines inserted earlier in the file\<close>

text \<open>
  C5 (as the code has it).  For \<^verbatim>\<open>extract_git.py\<close>, let \<open>P\<close> be unrelated lines put in front
  of a document \<open>D\<close>, and let the line at index 16 contain \<^verbatim>\<open>generateFileId\<close> neither in \<open>D\<close>
  nor in \<open>P @ D\<close>, so that the import step, the one step tied to an absolute index, applies
  to neither.  Then the run on \<open>P @ D\<close> raises exactly when the run on \<open>D\<close> raises, and
  otherwise writes \<open>P\<close> followed by what the run on \<open>D\<close> writes: the same lines are removed
  and added at the same places relative to the content.
\<close>

theorem extract_git_prefix_invariance:
  assumes "\<forall>l \<in> set P. unrelated l"
    and "\<not> (16 < length D \<and> contains ''generateFileId'' (D ! 16))"
    and "\<not> (16 < length (P @ D) \<and> contains ''generateFileId'' ((P @ D) ! 16))"
  shows "extract_git (P @ D) =
     (case extract_git D of Inl e \<Rightarrow> Inl e | Inr new_lines \<Rightarrow> Inr (P @ new_lines))"
proof -
  have idle: "\<forall>j < length P. extract_git_idle j ((P @ D) ! j)"
  proof (intro allI impI)
    fix j assume j: "j < length P"
    then have "(P @ D) ! j = P ! j" and "P ! j \<in> set P"
      by (simp_all add: nth_append)
    moreover from j assms(3) have "\<not> (j = 16 \<and> contains ''generateFileId'' ((P @ D) ! j))"
      by auto
    ultimately show "extract_git_idle j ((P @ D) ! j)"
      using assms(1) by (auto simp: extract_git_idle_def unrelated_def)
  qed
  have sc: "\<forall>l \<in> set P. \<not> contains status_change l"
    using assms(1) by (simp add: unrelated_def)
  have gate: "\<forall>i < length D. \<not> (i = 16 \<and> contains ''generateFileId'' (D ! i))
                        \<and> \<not> (length P + i = 16 \<and> contains ''generateFileId'' (D ! i))"
  proof (intro allI impI conjI)
    fix i assume "i < length D"
    with assms(2) show "\<not> (i = 16 \<and> contains ''generateFileId'' (D ! i))"
      by auto
    show "\<not> (length P + i = 16 \<and> contains ''generateFileId'' (D ! i))"
    proof
      assume a: "length P + i = 16 \<and> contains ''generateFileId'' (D ! i)"
      then have "(P @ D) ! 16 = D ! i"
        by (metis nth_append_length_plus)
      with a \<open>i < length D\<close> assms(3) show False
        by auto
    qed
  qed
  have "extract_git (P @ D) = extract_loop (P @ D) (length P) (take (length P) (P @ D))"
    unfolding extract_git_def by (rule extract_loop_idle_run) (use idle in simp_all)
  also have "\<dots> = extract_loop (P @ D) (length P + 0) (P @ [])"
    by simp
  also have "\<dots> = (case extract_loop D 0 [] of Inl e \<Rightarrow> Inl e | Inr out \<Rightarrow> Inr (P @ out))"
    by (rule extract_loop_shift[OF sc gate])
  finally show ?thesis
    by (simp add: extract_git_def)
qed

theorem extract_git_prefix_invariance_witness:
  "extract_git ([''// Copyright\<newline>'', ''// main process\<newline>'']
       @ [''interface GitWatcherSet {\<newline>'', ''}\<newline>'', ''const GIT_DEBOUNCE_MS = 300\<newline>'',
          ''app.whenReady()\<newline>''])
   = Inr ([''// Copyright\<newline>'', ''// main process\<newline>''] @ [''app.whenReady()\<newline>''])"
  using extract_git_prefix_invariance[of "[''// Copyright\<newline>'', ''// main process\<newline>'']"
      "[''interface GitWatcherSet {\<newline>'', ''}\<newline>'', ''const GIT_DEBOUNCE_MS = 300\<newline>'',
        ''app.whenReady()\<newline>'']"]
  by (simp add: unrelated_def extract_git_eval)

text \<open>
  With the import step involved the edits differ: the import is added after the line at
  index 16 of the first document, and nothing is added once one line is put in front.
\<close>

theorem extract_git_shifted_import_counterexample:
  "extract_git (replicate 16 blank_line @ [''import { generateFileId } from './utils/id'\<newline>''])
     = Inr (replicate 16 blank_line
            @ [''import { generateFileId } from './utils/id'\<newline>'', import_line])
   \<and> extract_git ([''// Copyright\<newline>'']
                   @ replicate 16 blank_line @ [''import { generateFileId } from './utils/id'\<newline>''])
     = Inr ([''// Copyright\<newline>'']
            @ replicate 16 blank_line @ [''import { generateFileId } from './utils/id'\<newline>''])"
  by code_simp


section \<open>C6: overlapping ranges\<close>





section \<open>C7: several lines match the terminator\<close>

text \<open>
  C7 (as the code has it).  Several lines that match a terminator are no error: each
  forward scan ends at the first line after its start that contains the pattern, and
  nothing is assumed about the lines after that one.
  \<^item> In \<^verbatim>\<open>extract_git.py\<close> the interface scan starts at the marker line, and the main loop
    continues just past the first later line that contains \<^verbatim>\<open>const GIT_DEBOUNCE_MS\<close>.
  \<^item> In \<^verbatim>\<open>extract_git.py\<close> the clean-up scan starts at the index \<open>s\<close> that the registration
    step leaves, which can lie past the marker line, and the main loop continues just
    past the first line after \<open>s\<close> that contains \<^verbatim>\<open>gitWatchers.clear()\<close>.
  \<^item> In \<^verbatim>\<open>modify_main_v2.py\<close> step 5, on a marker line after line 500 that is not skipped
    and not taken by step 4, sets \<^verbatim>\<open>skip_until_line\<close> to the number of the first later line
    that contains \<^verbatim>\<open>gitWatchers.clear()\<close>.
\<close>

theorem scans_take_first_terminator:
  "(\<not> (i = 16 \<and> contains ''generateFileId'' (lines ! i)) \<and>
    contains ''interface GitWatcherSet'' (lines ! i) \<and>
    i < j \<and> j < length lines \<and> contains ''const GIT_DEBOUNCE_MS'' (lines ! j) \<and>
    (\<forall>m. i < m \<and> m < j \<longrightarrow> \<not> contains ''const GIT_DEBOUNCE_MS'' (lines ! m))
    \<longrightarrow> extract_step lines i acc = Inr (j + 1, acc))
   \<and> (\<not> (i = 16 \<and> contains ''generateFileId'' (lines ! i)) \<and>
    \<not> contains ''interface GitWatcherSet'' (lines ! i) \<and>
    \<not> contains git_get_info (lines ! i) \<and>
    contains ''// Clean up all git watchers'' (lines ! i) \<and>
    register_step lines i acc = (s, acc4) \<and>
    s < j \<and> j < length lines \<and> contains ''gitWatchers.clear()'' (lines ! j) \<and>
    (\<forall>m. s < m \<and> m < j \<longrightarrow> \<not> contains ''gitWatchers.clear()'' (lines ! m))
    \<longrightarrow> extract_step lines i acc = Inr (j + 1, acc4 @ [cleanup_comment, cleanup_call]))
   \<and> ((\<forall>u. skip_until_line = Some u \<longrightarrow> u < i + 1) \<and>
    500 < i + 1 \<and> contains ''// Clean up all git watchers'' (lines ! i) \<and>
    \<not> (i + 1 = 947 \<and> contains git_get_info (lines ! i)) \<and>
    i < j \<and> j < length lines \<and> contains ''gitWatchers.clear()'' (lines ! j) \<and>
    (\<forall>m. i < m \<and> m < j \<longrightarrow> \<not> contains ''gitWatchers.clear()'' (lines ! m))
    \<longrightarrow> v2_body lines (skip_until_line, acc) i
          = (Some (j + 1), acc @ [cleanup_comment, cleanup_call]))"
proof (intro conjI impI; elim conjE)
  assume a: "\<not> (i = 16 \<and> contains ''generateFileId'' (lines ! i))"
      "contains ''interface GitWatcherSet'' (lines ! i)"
    and f: "i < j" "j < length lines" "contains ''const GIT_DEBOUNCE_MS'' (lines ! j)"
      "\<forall>m. i < m \<and> m < j \<longrightarrow> \<not> contains ''const GIT_DEBOUNCE_MS'' (lines ! m)"
  show "extract_step lines i acc = Inr (j + 1, acc)"
    by (simp add: extract_step_interface[OF a] skip_past_first[OF f])
next
  assume a: "\<not> (i = 16 \<and> contains ''generateFileId'' (lines ! i))"
      "\<not> contains ''interface GitWatcherSet'' (lines ! i)"
      "\<not> contains git_get_info (lines ! i)"
      "contains ''// Clean up all git watchers'' (lines ! i)"
    and r: "register_step lines i acc = (s, acc4)"
    and f: "s < j" "j < length lines" "contains ''gitWatchers.clear()'' (lines ! j)"
      "\<forall>m. s < m \<and> m < j \<longrightarrow> \<not> contains ''gitWatchers.clear()'' (lines ! m)"
  show "extract_step lines i acc = Inr (j + 1, acc4 @ [cleanup_comment, cleanup_call])"
    by (simp add: extract_step_cleanup[OF a r] skip_past_first[OF f])
next
  assume g: "\<forall>u. skip_until_line = Some u \<longrightarrow> u < i + 1"
    and n: "500 < i + 1" and c: "contains ''// Clean up all git watchers'' (lines ! i)"
    and h: "\<not> (i + 1 = 947 \<and> contains git_get_info (lines ! i))"
    and f: "i < j" "j < length lines" "contains ''gitWatchers.clear()'' (lines ! j)"
      "\<forall>m. i < m \<and> m < j \<longrightarrow> \<not> contains ''gitWatchers.clear()'' (lines ! m)"
  have "find (\<lambda>j. contains ''gitWatchers.clear()'' (lines ! j)) [i + 1 ..< length lines] = Some j"
    using f by (intro find_first_after) auto
  then show "v2_body lines (skip_until_line, acc) i
          = (Some (j + 1), acc @ [cleanup_comment, cleanup_call])"
    using g n c h by (auto simp: v2_body_def Let_def split: option.splits)
qed

theorem scans_take_first_terminator_witness:
  "extract_step
     [''interface GitWatcherSet {\<newline>'', ''}\<newline>'', ''const GIT_DEBOUNCE_MS = 300\<newline>'',
      ''app.whenReady()\<newline>'', ''const GIT_DEBOUNCE_MS = 500\<newline>''] 0 [] = Inr (3, [])
   \<and> extract_step
     [''  sshManager.on('status-change', (id, connected) => {\<newline>'',
      ''  }) // Clean up all git watchers\<newline>'',
      ''  gitWatchers.clear()\<newline>'',
      ''  keepMe()\<newline>'',
      ''  gitWatchers.clear()\<newline>''] 1 []
     = Inr (5, [''  }) // Clean up all git watchers\<newline>'', blank_line, register_comment,
                register_call, cleanup_comment, cleanup_call])
   \<and> v2_body
       (replicate 500 blank_line
        @ [''    // Clean up all git watchers\<newline>'', ''    closeAll()\<newline>'',
           ''    gitWatchers.clear()\<newline>'', ''    gitWatchers.clear()\<newline>'']) (None, []) 500
     = (Some 503, [cleanup_comment, cleanup_call])"
proof -
  let ?A = "[''interface GitWatcherSet {\<newline>'', ''}\<newline>'', ''const GIT_DEBOUNCE_MS = 300\<newline>'',
      ''app.whenReady()\<newline>'', ''const GIT_DEBOUNCE_MS = 500\<newline>'']"
  let ?B = "[''  sshManager.on('status-change', (id, connected) => {\<newline>'',
      ''  }) // Clean up all git watchers\<newline>'',
      ''  gitWatchers.clear()\<newline>'',
      ''  keepMe()\<newline>'',
      ''  gitWatchers.clear()\<newline>'']"
  let ?C = "replicate 500 blank_line
        @ [''    // Clean up all git watchers\<newline>'', ''    closeAll()\<newline>'',
           ''    gitWatchers.clear()\<newline>'', ''    gitWatchers.clear()\<newline>'']"
  have a: "\<forall>m. 0 < m \<and> m < 2 \<longrightarrow> \<not> contains ''const GIT_DEBOUNCE_MS'' (?A ! m)"
  proof (intro allI impI)
    fix m :: nat assume "0 < m \<and> m < 2"
    then have "m = 1" by simp
    then show "\<not> contains ''const GIT_DEBOUNCE_MS'' (?A ! m)" by simp
  qed
  have b: "\<forall>m. 2 < m \<and> m < 4 \<longrightarrow> \<not> contains ''gitWatchers.clear()'' (?B ! m)"
  proof (intro allI impI)
    fix m :: nat assume "2 < m \<and> m < 4"
    then have "m = 3" by simp
    then show "\<not> contains ''gitWatchers.clear()'' (?B ! m)" by simp
  qed
  have r: "register_step ?B 1 []
      = (2, [''  }) // Clean up all git watchers\<newline>'', blank_line, register_comment, register_call])"
    by (simp add: register_step_def slice_def)
  have c: "\<forall>m. 500 < m \<and> m < 502 \<longrightarrow> \<not> contains ''gitWatchers.clear()'' (?C ! m)"
  proof (intro allI impI)
    fix m :: nat assume "500 < m \<and> m < 502"
    then have "m = 501" by simp
    then show "\<not> contains ''gitWatchers.clear()'' (?C ! m)" by (simp add: nth_append)
  qed
  from a scans_take_first_terminator[of 0 ?A 2 "[]"]
  have 1: "extract_step ?A 0 [] = Inr (3, [])"
    by simp
  from b r scans_take_first_terminator[of 1 ?B 4 "[]" 2
      "[''  }) // Clean up all git watchers\<newline>'', blank_line, register_comment, register_call]"]
  have 2: "extract_step ?B 1 []
     = Inr (5, [''  }) // Clean up all git watchers\<newline>'', blank_line, register_comment,
                register_call, cleanup_comment, cleanup_call])"
    by simp
  from c scans_take_first_terminator[where i = 500 and lines = ?C and j = 502 and acc = "[]" and skip_until_line = None]
  have 3: "v2_body ?C (None, []) 500 = (Some 503, [cleanup_comment, cleanup_call])"
    by (simp add: nth_append)
  from 1 2 3 show ?thesis by simp
qed

text \<open>
  The terminator pattern matches lines 3 and 5 of this document.  The run does not abort:
  it deletes lines 1--3 and writes the rest, the second match included.
\<close>

theorem extract_git_ambiguous_terminator_counterexample:
  "extract_git
     [''interface GitWatcherSet {\<newline>'', ''}\<newline>'', ''const GIT_DEBOUNCE_MS = 300\<newline>'',
      ''app.whenReady()\<newline>'', ''const GIT_DEBOUNCE_MS = 500\<newline>'']
   = Inr [''app.whenReady()\<newline>'', ''const GIT_DEBOUNCE_MS = 500\<newline>'']"
  by (simp add: extract_git_eval)


section \<open>C8: lines outside every edit\<close>

text \<open>
  C8.  Every line outside every operation's range is copied to the output verbatim and in
  order.  \<^verbatim>\<open>extract_git.py\<close> does not do this at the registration step: the line
  \<^verbatim>\<open>createWindow()\<close> below follows the closing line of the \<^verbatim>\<open>status-change\<close> listener, no
  step edits it, and it is missing from the output, while the closing line is written
  twice.
\<close>

theorem extract_git_drops_line_after_registration:
  "extract_git
     [''  sshManager.on('status-change', (id, connected) => {\<newline>'',
      ''    notify(id, connected)\<newline>'',
      ''  })\<newline>'',
      ''  createWindow()\<newline>'',
      ''  startServices()\<newline>'']
   = Inr
     [''  sshManager.on('status-change', (id, connected) => {\<newline>'',
      ''    notify(id, connected)\<newline>'',
      ''  })\<newline>'',
      blank_line, register_comment, register_call,
      ''  })\<newline>'',
      ''  startServices()\<newline>'']"
  by (simp add: extract_git_eval)


section \<open>C9: a block-start marker without its terminator\<close>

text \<open>
  C9 (as the code has it).  An iteration of the main loop raises \<^verbatim>\<open>IndexError\<close> exactly
  when it enters a forward scan inside the document and no later line contains the
  terminator; the exception then ends the loop, before the file is opened for writing.
  \<^item> In \<^verbatim>\<open>extract_git.py\<close> the iteration at index \<open>i\<close> raises exactly when the import step
    does not take the line and either the line contains \<^verbatim>\<open>interface GitWatcherSet\<close> and no
    line after \<open>i\<close> contains \<^verbatim>\<open>const GIT_DEBOUNCE_MS\<close>, or the line contains
    \<^verbatim>\<open>// Clean up all git watchers\<close> and neither earlier marker, the registration step leaves
    an index \<open>s\<close> inside the document, and no line after \<open>s\<close> contains
    \<^verbatim>\<open>gitWatchers.clear()\<close>.
  \<^item> In \<^verbatim>\<open>modify_main_final.py\<close> the iteration at index \<open>i\<close> raises exactly when the line
    contains \<^verbatim>\<open>// Clean up all git watchers\<close>, its number lies between 501 and 599, step 3
    does not take it, and no line after \<open>i\<close> contains \<^verbatim>\<open>gitWatchers.clear()\<close>.
\<close>

theorem skip_loop_without_terminator_raises:
  assumes "i < length lines"
  shows "(extract_step lines i acc = Inl IndexError \<longleftrightarrow>
            \<not> (i = 16 \<and> contains ''generateFileId'' (lines ! i))
          \<and> (contains ''interface GitWatcherSet'' (lines ! i)
                \<and> (\<forall>l \<in> set (drop (Suc i) lines). \<not> contains ''const GIT_DEBOUNCE_MS'' l)
              \<or> \<not> contains ''interface GitWatcherSet'' (lines ! i)
                \<and> \<not> contains git_get_info (lines ! i)
                \<and> contains ''// Clean up all git watchers'' (lines ! i)
                \<and> fst (register_step lines i acc) < length lines
                \<and> (\<forall>l \<in> set (drop (Suc (fst (register_step lines i acc))) lines).
                      \<not> contains ''gitWatchers.clear()'' l)))
       \<and> (extract_step lines i acc = Inl IndexError \<longrightarrow> extract_loop lines i acc = Inl IndexError)
       \<and> (final_step lines i acc = Inl IndexError \<longleftrightarrow>
            contains ''// Clean up all git watchers'' (lines ! i)
          \<and> 500 < i + 1 \<and> i + 1 < 600
          \<and> \<not> (contains ''  })'' (lines ! i) \<and> 540 < i + 1 \<and> i + 1 < 550
                \<and> contains status_change (concat (slice lines (i - 10) i)))
          \<and> (\<forall>l \<in> set (drop (Suc i) lines). \<not> contains ''gitWatchers.clear()'' l))
       \<and> (final_step lines i acc = Inl IndexError \<longrightarrow> final_loop lines i acc = Inl IndexError)"
proof (intro conjI)
  let ?line = "lines ! i"
  obtain s acc4 where r: "register_step lines i acc = (s, acc4)"
    by (cases "register_step lines i acc")
  consider (import) "i = 16 \<and> contains ''generateFileId'' ?line"
    | (interface) "\<not> (i = 16 \<and> contains ''generateFileId'' ?line)"
        "contains ''interface GitWatcherSet'' ?line"
    | (handlers) "\<not> (i = 16 \<and> contains ''generateFileId'' ?line)"
        "\<not> contains ''interface GitWatcherSet'' ?line" "contains git_get_info ?line"
    | (cleanup) "\<not> (i = 16 \<and> contains ''generateFileId'' ?line)"
        "\<not> contains ''interface GitWatcherSet'' ?line" "\<not> contains git_get_info ?line"
        "contains ''// Clean up all git watchers'' ?line"
    | (default) "\<not> (i = 16 \<and> contains ''generateFileId'' ?line)"
        "\<not> contains ''interface GitWatcherSet'' ?line" "\<not> contains git_get_info ?line"
        "\<not> contains ''// Clean up all git watchers'' ?line"
    by blast
  then show "extract_step lines i acc = Inl IndexError \<longleftrightarrow>
            \<not> (i = 16 \<and> contains ''generateFileId'' (lines ! i))
          \<and> (contains ''interface GitWatcherSet'' (lines ! i)
                \<and> (\<forall>l \<in> set (drop (Suc i) lines). \<not> contains ''const GIT_DEBOUNCE_MS'' l)
              \<or> \<not> contains ''interface GitWatcherSet'' (lines ! i)
                \<and> \<not> contains git_get_info (lines ! i)
                \<and> contains ''// Clean up all git watchers'' (lines ! i)
                \<and> fst (register_step lines i acc) < length lines
                \<and> (\<forall>l \<in> set (drop (Suc (fst (register_step lines i acc))) lines).
                      \<not> contains ''gitWatchers.clear()'' l))"
  proof cases
    case import
    then show ?thesis
      unfolding extract_step_import[OF import] by blast
  next
    case interface
    have "extract_step lines i acc = Inl IndexError
        \<longleftrightarrow> skip_past ''const GIT_DEBOUNCE_MS'' lines i = Inl IndexError"
      unfolding extract_step_interface[OF interface] by (auto split: sum.splits)
    with interface assms show ?thesis
      by (simp add: skip_past_raises_iff)
  next
    case handlers
    then show ?thesis
      unfolding extract_step_handlers[OF handlers] by blast
  next
    case cleanup
    have "extract_step lines i acc = Inl IndexError
        \<longleftrightarrow> skip_past ''gitWatchers.clear()'' lines s = Inl IndexError"
      unfolding extract_step_cleanup[OF cleanup r] by (auto split: sum.splits)
    with cleanup r show ?thesis
      by (simp add: skip_past_raises_iff)
  next
    case default
    then show ?thesis
      unfolding extract_step_default[OF default r] by blast
  qed
next
  show "extract_step lines i acc = Inl IndexError \<longrightarrow> extract_loop lines i acc = Inl IndexError"
    using assms by (auto intro: extract_loop_raises)
next
  show "final_step lines i acc = Inl IndexError \<longleftrightarrow>
            contains ''// Clean up all git watchers'' (lines ! i)
          \<and> 500 < i + 1 \<and> i + 1 < 600
          \<and> \<not> (contains ''  })'' (lines ! i) \<and> 540 < i + 1 \<and> i + 1 < 550
                \<and> contains status_change (concat (slice lines (i - 10) i)))
          \<and> (\<forall>l \<in> set (drop (Suc i) lines). \<not> contains ''gitWatchers.clear()'' l)"
  proof (cases "contains ''// Clean up all git watchers'' (lines ! i) \<and> 500 < i + 1 \<and> i + 1 < 600
          \<and> \<not> (contains ''  })'' (lines ! i) \<and> 540 < i + 1 \<and> i + 1 < 550
                \<and> contains status_change (concat (slice lines (i - 10) i)))")
    case True
    then have "final_step lines i acc =
        (case skip_past ''gitWatchers.clear()'' lines i of
           Inl e \<Rightarrow> Inl e
         | Inr i' \<Rightarrow> Inr (i', acc @ [cleanup_comment, cleanup_call]))"
      by (auto simp: final_step_def Let_def)
    then have "final_step lines i acc = Inl IndexError
        \<longleftrightarrow> skip_past ''gitWatchers.clear()'' lines i = Inl IndexError"
      by (auto split: sum.splits)
    with True assms show ?thesis
      by (simp add: skip_past_raises_iff)
  next
    case False
    then have "\<exists>st. final_step lines i acc = Inr st"
      by (auto simp: final_step_def Let_def)
    with False show ?thesis
      by auto
  qed
next
  show "final_step lines i acc = Inl IndexError \<longrightarrow> final_loop lines i acc = Inl IndexError"
    using assms by (auto intro: final_loop_raises)
qed

theorem skip_loop_without_terminator_raises_witness:
  "extract_loop [''interface GitWatcherSet {\<newline>'', ''  watcher: FSWatcher\<newline>'', ''}\<newline>''] 0 []
     = Inl IndexError
   \<and> extract_loop [''    // Clean up all git watchers\<newline>'', ''    app.quit()\<newline>''] 0 []
     = Inl IndexError
   \<and> final_loop
       (replicate 500 blank_line @ [''  }) // Clean up all git watchers\<newline>'', ''    app.quit()\<newline>''])
       500 []
     = Inl IndexError"
  using
    skip_loop_without_terminator_raises
      [of 0 "[''interface GitWatcherSet {\<newline>'', ''  watcher: FSWatcher\<newline>'', ''}\<newline>'']" "[]"]
    skip_loop_without_terminator_raises
      [of 0 "[''    // Clean up all git watchers\<newline>'', ''    app.quit()\<newline>'']" "[]"]
    skip_loop_without_terminator_raises
      [of 500 "replicate 500 blank_line
               @ [''  }) // Clean up all git watchers\<newline>'', ''    app.quit()\<newline>'']" "[]"]
  by (simp add: register_step_def nth_append)

text \<open>
  The marker alone does not raise.  In \<^verbatim>\<open>modify_main_final.py\<close> the marker on line 1 is
  outside the line numbers of step 5, so the line is copied and the run completes.  In
  \<^verbatim>\<open>extract_git.py\<close> the marker on line 2 lies in the block that the handler step skips, so
  the main loop never reads it.  Neither document has a line with \<^verbatim>\<open>gitWatchers.clear()\<close>.
\<close>

theorem marker_without_terminator_counterexample:
  "modify_main_final [''    // Clean up all git watchers\<newline>'', ''    app.quit()\<newline>'']
     = Inr [''    // Clean up all git watchers\<newline>'', ''    app.quit()\<newline>'']
   \<and> extract_git
       [''  ipcMain.handle('git:get-info', getInfo)\<newline>'',
        ''  // Clean up all git watchers\<newline>'',
        ''// File system IPC handlers\<newline>'']
     = Inr [''// File system IPC handlers\<newline>'']"
  by (simp add: final_eval extract_git_eval)


section \<open>C10: the registration step\<close>

text \<open>
  C10.  Where the registration condition of \<^verbatim>\<open>extract_git.py\<close> holds, the closing line is
  written twice, before and after the inserted registration lines, and the input line
  after it is dropped.  With two listener lines in the window the code does more than
  that: it writes the closing line three times and the registration lines twice, and it
  drops the two lines \<^verbatim>\<open>createWindow()\<close> and \<^verbatim>\<open>startServices()\<close>.  Both are the slip of lines
  65--72, whose \<^verbatim>\<open>continue\<close> continues the inner loop; the registration is meant to be
  inserted once after the closing line, with no line lost.
\<close>

theorem extract_git_registration_repeats_per_listener:
  "extract_git
     [''  sshManager.on('status-change', onLocal)\<newline>'',
      ''  sshManager.on('status-change', (id, connected) => {\<newline>'',
      ''  })\<newline>'',
      ''  createWindow()\<newline>'',
      ''  startServices()\<newline>'',
      ''  openDevTools()\<newline>'']
   = Inr
     [''  sshManager.on('status-change', onLocal)\<newline>'',
      ''  sshManager.on('status-change', (id, connected) => {\<newline>'',
      ''  })\<newline>'', blank_line, register_comment, register_call,
      ''  })\<newline>'', blank_line, register_comment, register_call,
      ''  })\<newline>'',
      ''  openDevTools()\<newline>'']"
  by (simp add: extract_git_eval)

end
